theory Spec2Isabelle
  imports Main
begin

section \<open>The data model of \<open>src/index.ts\<close>\<close>

text \<open>
  Object identity is what the source compares (\<open>includes\<close>, \<open>indexOf\<close>), so every
  object is named by a reference: \<open>ref\<close> for a \<open>MagicAborter\<close>, \<open>opref\<close> for a collected
  \<open>Abortable\<close>, \<open>lref\<close> for a listener function.
\<close>

type_synonym ref = nat

type_synonym opref = nat

type_synonym lref = nat

text \<open>\<open>export type EventType = "abort" | "aborted"\<close>\<close>

datatype EventType = EvAbort | EvAborted

text \<open>
  The private fields of \<open>class MagicAborter\<close>: \<open>_aborted\<close> (here \<open>priv_aborted\<close>, an
  identifier cannot start with an underscore), \<open>children\<close>, \<open>collections\<close> and the
  \<open>emitter\<close>, whose state is the handler array of each event type.
\<close>

record MagicAborter =
  priv_aborted :: bool
  children :: "ref list"
  collections :: "opref list"
  emitter :: "EventType \<Rightarrow> lref list"

text \<open>
  What the scope does that an outside observer sees: an event emitted on a scope, a
  listener called for it, and the \<open>abort()\<close> of a collected object called by the drain
  loop of a scope. The log is instrumentation: the source has no such field.
\<close>

datatype obs =
    Emit ref EventType
  | Handler ref EventType lref
  | OpAbort ref opref

record world =
  heap :: "ref \<Rightarrow> MagicAborter"
  trace :: "obs list"

text \<open>
  A listener or the \<open>abort\<close> method of an \<open>Abortable\<close> is arbitrary JavaScript. What it
  can do to a scope is call the scope's public members, and it can throw; its code is
  a list of such calls. (\<open>MagicAborter implements Abortable\<close>: a scope that is itself
  collected is an object whose \<open>abort\<close> is the one call \<open>AbortCall\<close> of that scope.)
  A \<open>program\<close> gives the code of every collected object and of every listener.
\<close>

datatype call =
    Collect ref opref
  | AbortCall ref
  | SetAborted ref bool
  | On ref EventType lref
  | Off ref EventType lref
  | AddChildAborter ref ref
  | RemoveChildAborter ref ref
  | Throw

record program =
  abort_of :: "opref \<Rightarrow> call list"
  listener :: "lref \<Rightarrow> call list"

text \<open>
  A call returns or throws, in both cases with the state it leaves; \<open>None\<close> is a
  call that does not come back within the given bound on nested calls and on the turns
  of the \<open>while\<close> statement (an unbounded recursion or iteration of the source). \<open>then_do\<close> is the
  semicolon: the next statement runs only after a normal return. \<open>run_seq\<close> runs the
  statements of a body, or calls back the elements of an array, one after the other.
\<close>

datatype completion = Returned | Thrown

type_synonym res = "(completion \<times> world) option"

definition then_do :: "res \<Rightarrow> (world \<Rightarrow> res) \<Rightarrow> res" where
  "then_do m k = (case m of None \<Rightarrow> None
                  | Some (Returned, w) \<Rightarrow> k w
                  | Some (Thrown, w) \<Rightarrow> Some (Thrown, w))"

primrec run_seq :: "('a \<Rightarrow> world \<Rightarrow> res) \<Rightarrow> 'a list \<Rightarrow> world \<Rightarrow> res" where
  "run_seq f [] w = Some (Returned, w)"
| "run_seq f (x # xs) w = then_do (f x w) (run_seq f xs)"

text \<open>Assigning to a field of one object, and appending to the log.\<close>

definition upd :: "ref \<Rightarrow> (MagicAborter \<Rightarrow> MagicAborter) \<Rightarrow> world \<Rightarrow> world" where
  "upd this f w = w\<lparr>heap := (heap w)(this := f (heap w this))\<rparr>"

definition log :: "obs \<Rightarrow> world \<Rightarrow> world" where
  "log e w = w\<lparr>trace := trace w @ [e]\<rparr>"

section \<open>JavaScript array methods the class uses\<close>

text \<open>
  \<open>Array.prototype.indexOf\<close>: the first index holding the element, \<open>-1\<close> when there
  is none. \<open>Array.prototype.includes\<close> (here \<open>includes_elem\<close>) likewise, as a truth value.
\<close>

primrec indexOf_from :: "'a list \<Rightarrow> 'a \<Rightarrow> int \<Rightarrow> int" where
  "indexOf_from [] x k = - 1"
| "indexOf_from (y # ys) x k = (if y = x then k else indexOf_from ys x (k + 1))"

definition indexOf :: "'a list \<Rightarrow> 'a \<Rightarrow> int" where
  "indexOf xs x = indexOf_from xs x 0"

definition includes_elem :: "'a list \<Rightarrow> 'a \<Rightarrow> bool" where
  "includes_elem xs x = (indexOf xs x \<noteq> - 1)"

text \<open>
  \<open>Array.prototype.splice(start, deleteCount)\<close>, the array it leaves: a negative
  \<open>start\<close> counts from the end (\<open>max (len + start) 0\<close>), a \<open>start\<close> beyond the end
  is the end, and the count is clamped to what is there.
\<close>

definition splice :: "int \<Rightarrow> int \<Rightarrow> 'a list \<Rightarrow> 'a list" where
  "splice start deleteCount xs =
     (let len = int (length xs);
          actualStart = (if start < 0 then max (len + start) 0 else min start len);
          actualDeleteCount = min (max deleteCount 0) (len - actualStart)
      in take (nat actualStart) xs @ drop (nat (actualStart + actualDeleteCount)) xs)"

text \<open>
  \<open>Array.prototype.every\<close> over a callback that may itself not come back: it stops at
  the first element for which the callback is false.
\<close>

primrec every :: "('a \<Rightarrow> bool option) \<Rightarrow> 'a list \<Rightarrow> bool option" where
  "every f [] = Some True"
| "every f (x # xs) =
     (case f x of None \<Rightarrow> None
      | Some b \<Rightarrow> if b then every f xs else Some False)"

section \<open>The emitter\<close>

text \<open>
  Modelled from the spec: the emitter is the library \<open>mitt\<close>, whose code is not among
  the sources. Section 4.1 of the specification: adding a listener appends it to the
  sequence of its event kind, without a duplicate check; removing a listener removes
  the first identity match and does nothing when there is none; emitting calls all
  registered listeners (those registered when the emission starts), synchronously, in
  registration order. A listener that throws is not caught.
\<close>

definition emitter_on :: "EventType \<Rightarrow> lref \<Rightarrow> (EventType \<Rightarrow> lref list) \<Rightarrow> (EventType \<Rightarrow> lref list)" where
  "emitter_on ev l all = all(ev := all ev @ [l])"

definition emitter_off :: "EventType \<Rightarrow> lref \<Rightarrow> (EventType \<Rightarrow> lref list) \<Rightarrow> (EventType \<Rightarrow> lref list)" where
  "emitter_off ev l all = all(ev := remove1 l (all ev))"

definition emit :: "(lref \<Rightarrow> world \<Rightarrow> res) \<Rightarrow> ref \<Rightarrow> EventType \<Rightarrow> world \<Rightarrow> res" where
  "emit call_listener this ev w =
     run_seq (\<lambda>l w'. call_listener l (log (Handler this ev l) w'))
       (emitter (heap w this) ev) (log (Emit this ev) w)"

section \<open>The members of \<open>MagicAborter\<close>\<close>

text \<open>
  \<open>constructor(options?)\<close>: the fields' initialisers, then \<open>this.children = children\<close>.
  (The constructor keeps the caller's array; two scopes built from one array are not
  modelled.)
\<close>

definition new_MagicAborter :: "ref list \<Rightarrow> MagicAborter" where
  "new_MagicAborter cs =
     \<lparr>priv_aborted = False, children = cs, collections = [], emitter = (\<lambda>_. [])\<rparr>"

text \<open>
  \<open>get aborted()\<close>: \<open>this._aborted && this.children.every((i) => i.aborted)\<close>. The
  getter calls itself on the children, so it is defined by recursion on the depth of
  calls allowed; \<open>&&\<close> does not evaluate its right side when \<open>_aborted\<close> is false.
\<close>

primrec get_aborted :: "nat \<Rightarrow> (ref \<Rightarrow> MagicAborter) \<Rightarrow> ref \<Rightarrow> bool option" where
  "get_aborted 0 h this = None"
| "get_aborted (Suc n) h this =
     (if priv_aborted (h this) then every (get_aborted n h) (children (h this))
      else Some False)"

text \<open>\<open>set aborted(value)\<close>\<close>

definition set_aborted :: "ref \<Rightarrow> bool \<Rightarrow> world \<Rightarrow> world" where
  "set_aborted this v w = upd this (\<lambda>s. s\<lparr>priv_aborted := v\<rparr>) w"

text \<open>\<open>collect(abortable)\<close>\<close>

definition collect :: "ref \<Rightarrow> opref \<Rightarrow> world \<Rightarrow> world" where
  "collect this abortable w =
     set_aborted this False
       (if \<not> includes_elem (collections (heap w this)) abortable
        then upd this (\<lambda>s. s\<lparr>collections := collections s @ [abortable]\<rparr>) w
        else w)"

text \<open>\<open>on\<close>, \<open>off\<close> (and \<open>onAbort\<close>, \<open>onAborted\<close>, which call \<open>on\<close>)\<close>

definition on :: "ref \<Rightarrow> EventType \<Rightarrow> lref \<Rightarrow> world \<Rightarrow> world" where
  "on this ev l w = upd this (\<lambda>s. s\<lparr>emitter := emitter_on ev l (emitter s)\<rparr>) w"

definition off :: "ref \<Rightarrow> EventType \<Rightarrow> lref \<Rightarrow> world \<Rightarrow> world" where
  "off this ev l w = upd this (\<lambda>s. s\<lparr>emitter := emitter_off ev l (emitter s)\<rparr>) w"

definition onAbort :: "ref \<Rightarrow> lref \<Rightarrow> world \<Rightarrow> world" where
  "onAbort this l w = on this EvAbort l w"

definition onAborted :: "ref \<Rightarrow> lref \<Rightarrow> world \<Rightarrow> world" where
  "onAborted this l w = on this EvAborted l w"

text \<open>\<open>addChildAborter(child)\<close>: \<open>this.children.push(child)\<close>\<close>

definition addChildAborter :: "ref \<Rightarrow> ref \<Rightarrow> world \<Rightarrow> world" where
  "addChildAborter this child w = upd this (\<lambda>s. s\<lparr>children := children s @ [child]\<rparr>) w"

text \<open>
  \<open>removeChildAborter(child)\<close>:
  \<open>this.children.splice(this.children.indexOf(child), 1)\<close>
\<close>

definition removeChildAborter :: "ref \<Rightarrow> ref \<Rightarrow> world \<Rightarrow> world" where
  "removeChildAborter this child w =
     upd this (\<lambda>s. s\<lparr>children := splice (indexOf (children s) child) 1 (children s)\<rparr>) w"

text \<open>
  The drain loop of \<open>abort()\<close>:
  \<open>while (this.collections.length) { this.collections.shift()!.abort(); }\<close>.
  The array is read again at every turn, so the loop sees what a callback pushed; it
  has no bound of its own, hence the count of turns allowed.
\<close>

primrec drain :: "(opref \<Rightarrow> world \<Rightarrow> res) \<Rightarrow> nat \<Rightarrow> ref \<Rightarrow> world \<Rightarrow> res" where
  "drain call_op 0 this w = None"
| "drain call_op (Suc n) this w =
     (case collections (heap w this) of
        [] \<Rightarrow> Some (Returned, w)
      | a # rest \<Rightarrow>
          then_do (call_op a (log (OpAbort this a) (upd this (\<lambda>s. s\<lparr>collections := rest\<rparr>) w)))
            (drain call_op n this))"

text \<open>
  \<open>this.children.forEach((i) => i.abort())\<close>. \<open>forEach\<close> fixes the number of indices
  when it starts, and at each index reads the array as it is then: an index that no
  longer exists is skipped, an element pushed meanwhile is not visited. The second
  number is the count of indices still to visit.
\<close>

primrec forEach_from :: "(ref \<Rightarrow> world \<Rightarrow> res) \<Rightarrow> ref \<Rightarrow> nat \<Rightarrow> nat \<Rightarrow> world \<Rightarrow> res" where
  "forEach_from call_child this m 0 w = Some (Returned, w)"
| "forEach_from call_child this m (Suc k) w =
     (let cs = children (heap w this)
      in if m < length cs
         then then_do (call_child (cs ! m) w) (forEach_from call_child this (Suc m) k)
         else forEach_from call_child this (Suc m) k w)"

text \<open>
  \<open>abort()\<close>, given how a call made from a callback runs (\<open>run\<close>): the guard on the
  getter, the \<open>abort\<close> event, the drain loop, the children, the flag, the \<open>aborted\<close>
  event.
\<close>

definition abort :: "program \<Rightarrow> (call \<Rightarrow> world \<Rightarrow> res) \<Rightarrow> nat \<Rightarrow> ref \<Rightarrow> world \<Rightarrow> res" where
  "abort P run n this w =
     (case get_aborted n (heap w) this of
        None \<Rightarrow> None
      | Some b \<Rightarrow>
          if b then Some (Returned, w)
          else
            then_do (emit (\<lambda>l. run_seq run (listener P l)) this EvAbort w) (\<lambda>w1.
            then_do (drain (\<lambda>a. run_seq run (abort_of P a)) n this w1) (\<lambda>w2.
            then_do (forEach_from (\<lambda>i. run (AbortCall i)) this 0
                       (length (children (heap w2 this))) w2) (\<lambda>w3.
            emit (\<lambda>l. run_seq run (listener P l)) this EvAborted
              (set_aborted this True w3)))))"

text \<open>
  A call on a scope, at most \<open>n\<close> calls deep. The callbacks that \<open>abort()\<close> invokes
  run their own calls one level deeper.
\<close>

primrec exec :: "program \<Rightarrow> nat \<Rightarrow> call \<Rightarrow> world \<Rightarrow> res" where
  "exec P 0 c w = None"
| "exec P (Suc n) c w =
     (case c of
        Collect this a \<Rightarrow> Some (Returned, collect this a w)
      | AbortCall this \<Rightarrow> abort P (exec P n) n this w
      | SetAborted this v \<Rightarrow> Some (Returned, set_aborted this v w)
      | On this ev l \<Rightarrow> Some (Returned, on this ev l w)
      | Off this ev l \<Rightarrow> Some (Returned, off this ev l w)
      | AddChildAborter this child \<Rightarrow> Some (Returned, addChildAborter this child w)
      | RemoveChildAborter this child \<Rightarrow> Some (Returned, removeChildAborter this child w)
      | Throw \<Rightarrow> Some (Thrown, w))"

section \<open>Notions used to state the properties\<close>

text \<open>
  A program whose callbacks do nothing to any scope and do not throw: being called is
  all that happens (the log records it).
\<close>

definition quiet :: "program \<Rightarrow> bool" where
  "quiet P \<longleftrightarrow> (\<forall>a. abort_of P a = []) \<and> (\<forall>l. listener P l = [])"

text \<open>
  The children relation of a heap is well-founded when the scopes can be ranked so
  that every child ranks below its parent: no scope is its own descendant.
\<close>

definition ranked :: "(ref \<Rightarrow> MagicAborter) \<Rightarrow> (ref \<Rightarrow> nat) \<Rightarrow> bool" where
  "ranked h rk \<longleftrightarrow> (\<forall>x. \<forall>c \<in> set (children (h x)). rk c < rk x)"

text \<open>The getter \<open>aborted\<close> answers true, at some depth of calls.\<close>

definition canceled :: "(ref \<Rightarrow> MagicAborter) \<Rightarrow> ref \<Rightarrow> bool" where
  "canceled h x \<longleftrightarrow> (\<exists>n. get_aborted n h x = Some True)"

text \<open>
  What a pass may change: it keeps every \<open>children\<close> array and every listener, it sets
  flags and never clears one, and it empties \<open>collections\<close> arrays.
\<close>

definition stable :: "world \<Rightarrow> world \<Rightarrow> bool" where
  "stable w w' \<longleftrightarrow>
     (\<forall>x. children (heap w' x) = children (heap w x)
        \<and> emitter (heap w' x) = emitter (heap w x)
        \<and> (priv_aborted (heap w x) \<longrightarrow> priv_aborted (heap w' x))
        \<and> (collections (heap w' x) = collections (heap w x) \<or> collections (heap w' x) = []))"

text \<open>The scope an observation is about.\<close>

primrec obs_ref :: "obs \<Rightarrow> ref" where
  "obs_ref (Emit r ev) = r"
| "obs_ref (Handler r ev l) = r"
| "obs_ref (OpAbort r a) = r"

definition logs :: "obs list \<Rightarrow> world \<Rightarrow> world" where
  "logs es w = w\<lparr>trace := trace w @ es\<rparr>"

text \<open>
  The observations of one pass of \<open>abort()\<close> on scope \<open>r\<close> started in state \<open>w\<close>, where
  \<open>tc\<close> is what the passes of the children contribute.
\<close>

definition pass_trace :: "world \<Rightarrow> ref \<Rightarrow> obs list \<Rightarrow> obs list" where
  "pass_trace w r tc =
     Emit r EvAbort # map (Handler r EvAbort) (emitter (heap w r) EvAbort)
     @ map (OpAbort r) (collections (heap w r))
     @ tc
     @ Emit r EvAborted # map (Handler r EvAborted) (emitter (heap w r) EvAborted)"

text \<open>
  What a test reads after a call: how it completed, what the getter \<open>aborted\<close> of a
  scope answers, the scope's \<open>collections\<close>, and the log.
\<close>

definition observe :: "nat \<Rightarrow> ref \<Rightarrow> res \<Rightarrow> (completion \<times> bool option \<times> opref list \<times> obs list) option" where
  "observe n r m =
     map_option (\<lambda>(c, w). (c, get_aborted n (heap w) r, collections (heap w r), trace w)) m"

text \<open>
  A callback that does nothing but register objects on scope \<open>r\<close>
  (\<open>() => { r.collect(x); ... }\<close>), each of them an object whose own \<open>abort()\<close> is quiet.
\<close>

definition registers :: "program \<Rightarrow> ref \<Rightarrow> call list \<Rightarrow> bool" where
  "registers P r body \<longleftrightarrow> (\<forall>c \<in> set body. \<exists>x. c = Collect r x \<and> abort_of P x = [])"

definition registered_by :: "ref \<Rightarrow> call list \<Rightarrow> opref set" where
  "registered_by r body = {x. Collect r x \<in> set body}"

text \<open>A bound on the turns the drain loop takes over a queue of such objects.\<close>

definition cost :: "program \<Rightarrow> opref list \<Rightarrow> nat" where
  "cost P q = sum_list (map (\<lambda>a. Suc (length (abort_of P a))) q)"

text \<open>No object is twice in a \<open>collections\<close> array.\<close>

definition tidy :: "world \<Rightarrow> bool" where
  "tidy w \<longleftrightarrow> (\<forall>r. distinct (collections (heap w r)))"

section \<open>Programs and states used as concrete inputs\<close>

text \<open>Callbacks that do nothing but get called.\<close>

definition quiet_program :: program where
  "quiet_program = \<lparr>abort_of = (\<lambda>_. []), listener = (\<lambda>_. [])\<rparr>"

text \<open>Listener 6 registers object 9 on scope 0: \<open>() => s0.collect(o9)\<close>.\<close>

definition rearming_program :: program where
  "rearming_program =
     \<lparr>abort_of = (\<lambda>_. []), listener = (\<lambda>l. if l = 6 then [Collect 0 9] else [])\<rparr>"

text \<open>Listener 6 throws: \<open>() => { throw new Error() }\<close>.\<close>

definition throwing_program :: program where
  "throwing_program =
     \<lparr>abort_of = (\<lambda>_. []), listener = (\<lambda>l. if l = 6 then [Throw] else [])\<rparr>"

text \<open>Listener 5 registers object 9 on scope 0, then throws.\<close>

definition late_failing_program :: program where
  "late_failing_program =
     \<lparr>abort_of = (\<lambda>_. []),
      listener = (\<lambda>l. if l = 5 then [Collect 0 9, Throw] else [])\<rparr>"

text \<open>Listener 5 throws.\<close>

definition listener_failing_program :: program where
  "listener_failing_program =
     \<lparr>abort_of = (\<lambda>_. []), listener = (\<lambda>l. if l = 5 then [Throw] else [])\<rparr>"

text \<open>Object 3 throws from its \<open>abort()\<close>.\<close>

definition object_failing_program :: program where
  "object_failing_program =
     \<lparr>abort_of = (\<lambda>a. if a = 3 then [Throw] else []), listener = (\<lambda>_. [])\<rparr>"

text \<open>
  Object 7 registers object 9 on scope 0 from its \<open>abort()\<close>; listener 5 registers
  object 8 on scope 0; object 3 registers object 10 on scope 0.
\<close>

definition registering_program :: program where
  "registering_program =
     \<lparr>abort_of = (\<lambda>a. if a = 7 then [Collect 0 9] else if a = 3 then [Collect 0 10] else []),
      listener = (\<lambda>l. if l = 5 then [Collect 0 8] else [])\<rparr>"

text \<open>A heap of freshly constructed scopes, nothing logged yet.\<close>

definition empty_world :: world where
  "empty_world = \<lparr>heap = (\<lambda>_. new_MagicAborter []), trace = []\<rparr>"

text \<open>
  Scope 0 with its flag set while object 1 is in its \<open>collections\<close>
  (\<open>s0.collect(o1); s0.aborted = true\<close>).
\<close>

definition flagged_world :: world where
  "flagged_world = \<lparr>heap = (\<lambda>_. new_MagicAborter [])
       (0 := \<lparr>priv_aborted = True, children = [], collections = [1], emitter = (\<lambda>_. [])\<rparr>),
     trace = []\<rparr>"

text \<open>
  Scope 0 with the child 1, the collected objects 3 and 4, the \<open>abort\<close> listener 5 and
  the \<open>aborted\<close> listener 6; scope 1 with the collected object 7. Scope 0 ranks above
  scope 1.
\<close>

definition family_world :: world where
  "family_world = \<lparr>heap = (\<lambda>_. new_MagicAborter [])
       (0 := \<lparr>priv_aborted = False, children = [1], collections = [3, 4],
              emitter = (\<lambda>_. [])(EvAbort := [5], EvAborted := [6])\<rparr>,
        1 := \<lparr>priv_aborted = False, children = [], collections = [7],
              emitter = (\<lambda>_. [])\<rparr>),
     trace = []\<rparr>"

definition family_rank :: "ref \<Rightarrow> nat" where
  "family_rank x = (if x = 0 then 1 else 0)"

text \<open>Scope 0 with a listener of each kind, nothing collected, no child.\<close>

definition listening_world :: world where
  "listening_world = onAborted 0 6 (onAbort 0 5 empty_world)"

text \<open>Scope 0 and its child 1, both canceled.\<close>

definition canceled_world :: world where
  "canceled_world = \<lparr>heap = (\<lambda>_. new_MagicAborter [])
       (0 := \<lparr>priv_aborted = True, children = [1], collections = [],
              emitter = (\<lambda>_. [])\<rparr>,
        1 := \<lparr>priv_aborted = True, children = [], collections = [],
              emitter = (\<lambda>_. [])\<rparr>),
     trace = []\<rparr>"

text \<open>
  Scope 0 with its flag set and the children 1 and 2; scope 1 is canceled, scope 2 is
  not and holds object 7.
\<close>

definition half_canceled_world :: world where
  "half_canceled_world = \<lparr>heap = (\<lambda>_. new_MagicAborter [])
       (0 := \<lparr>priv_aborted = True, children = [1, 2], collections = [],
              emitter = (\<lambda>_. [])\<rparr>,
        1 := \<lparr>priv_aborted = True, children = [], collections = [],
              emitter = (\<lambda>_. [])\<rparr>,
        2 := \<lparr>priv_aborted = False, children = [], collections = [7],
              emitter = (\<lambda>_. [])\<rparr>),
     trace = []\<rparr>"

text \<open>Scope 0 without children, holding object 3, with a listener of each kind.\<close>

definition registering_world :: world where
  "registering_world = \<lparr>heap = (\<lambda>_. new_MagicAborter [])
       (0 := \<lparr>priv_aborted = False, children = [], collections = [3],
              emitter = (\<lambda>_. [])(EvAbort := [5], EvAborted := [6])\<rparr>),
     trace = []\<rparr>"

section \<open>Basic facts\<close>

lemma heap_upd [simp]: "heap (upd this f w) = (heap w)(this := f (heap w this))"
  by (simp add: upd_def)

lemma trace_upd [simp]: "trace (upd this f w) = trace w"
  by (simp add: upd_def)

lemma heap_log [simp]: "heap (log e w) = heap w"
  by (simp add: log_def)

lemma trace_log [simp]: "trace (log e w) = trace w @ [e]"
  by (simp add: log_def)

lemma heap_set_aborted [simp]:
  "heap (set_aborted this v w) = (heap w)(this := (heap w this)\<lparr>priv_aborted := v\<rparr>)"
  by (simp add: set_aborted_def)

lemma trace_set_aborted [simp]: "trace (set_aborted this v w) = trace w"
  by (simp add: set_aborted_def)

lemma heap_logs [simp]: "heap (logs es w) = heap w"
  by (simp add: logs_def)

lemma trace_logs [simp]: "trace (logs es w) = trace w @ es"
  by (simp add: logs_def)

lemma logs_log: "logs es (log e w) = logs (e # es) w"
  by (simp add: logs_def log_def)

lemma logs_Nil [simp]: "logs [] w = w"
  by (simp add: logs_def)

lemma then_do_Returned [simp]: "then_do (Some (Returned, w)) k = k w"
  by (simp add: then_do_def)

lemma then_do_Thrown [simp]: "then_do (Some (Thrown, w)) k = Some (Thrown, w)"
  by (simp add: then_do_def)

lemma then_do_None [simp]: "then_do None k = None"
  by (simp add: then_do_def)

lemma then_do_Some:
  "then_do m k = Some r \<longleftrightarrow>
     (\<exists>w. m = Some (Thrown, w) \<and> r = (Thrown, w)) \<or> (\<exists>w. m = Some (Returned, w) \<and> k w = Some r)"
  by (auto simp: then_do_def split: option.splits completion.splits prod.splits)

lemma indexOf_from_absent: "x \<notin> set xs \<Longrightarrow> indexOf_from xs x k = - 1"
  by (induction xs arbitrary: k) auto

lemma indexOf_from_present:
  "x \<in> set xs \<Longrightarrow> k \<le> indexOf_from xs x k \<and> indexOf_from xs x k < k + int (length xs)"
proof (induction xs arbitrary: k)
  case Nil
  then show ?case by simp
next
  case (Cons y ys)
  show ?case
  proof (cases "y = x")
    case True
    then show ?thesis by simp
  next
    case False
    with Cons.prems have "x \<in> set ys" by simp
    from Cons.IH [OF this, of "k + 1"] False show ?thesis by simp
  qed
qed

lemma includes_elem_iff: "includes_elem xs x \<longleftrightarrow> x \<in> set xs"
proof (cases "x \<in> set xs")
  case True
  from indexOf_from_present [OF this, of 0] True show ?thesis
    by (simp add: includes_elem_def indexOf_def)
next
  case False
  then show ?thesis
    by (simp add: includes_elem_def indexOf_def indexOf_from_absent)
qed

text \<open>
  With an element that is not in the array, \<open>indexOf\<close> is \<open>-1\<close> and \<open>splice(-1, 1)\<close>
  removes the last element.
\<close>

lemma splice_absent: "x \<notin> set xs \<Longrightarrow> splice (indexOf xs x) 1 xs = butlast xs"
  by (cases "xs = []")
    (auto simp: splice_def indexOf_def indexOf_from_absent Let_def butlast_conv_take
      nat_diff_distrib')

lemma collections_collect:
  "collections (heap (collect this a w) this) =
     (if a \<in> set (collections (heap w this)) then collections (heap w this)
      else collections (heap w this) @ [a])"
  by (simp add: collect_def includes_elem_iff)

lemma priv_aborted_collect: "\<not> priv_aborted (heap (collect this a w) this)"
  by (simp add: collect_def)

lemma heap_collect_other: "x \<noteq> this \<Longrightarrow> heap (collect this a w) x = heap w x"
  by (simp add: collect_def)

lemma children_collect: "children (heap (collect this a w) x) = children (heap w x)"
  by (simp add: collect_def)

lemma emitter_collect: "emitter (heap (collect this a w) x) = emitter (heap w x)"
  by (simp add: collect_def)

lemma trace_collect: "trace (collect this a w) = trace w"
  by (simp add: collect_def)

lemma collect_collect: "collect r a (collect r a w) = collect r a w"
  by (simp add: collect_def includes_elem_iff set_aborted_def upd_def)

lemma distinct_collect:
  "distinct (collections (heap w r)) \<Longrightarrow> distinct (collections (heap (collect r a w) r))"
  by (simp add: collections_collect)

lemma abort_not_canceled:
  "get_aborted n (heap w) this = Some False \<Longrightarrow>
   abort P run n this w =
     then_do (emit (\<lambda>l. run_seq run (listener P l)) this EvAbort w) (\<lambda>w1.
     then_do (drain (\<lambda>a. run_seq run (abort_of P a)) n this w1) (\<lambda>w2.
     then_do (forEach_from (\<lambda>i. run (AbortCall i)) this 0
                (length (children (heap w2 this))) w2) (\<lambda>w3.
     emit (\<lambda>l. run_seq run (listener P l)) this EvAborted
       (set_aborted this True w3))))"
  by (simp add: abort_def)

lemma abort_canceled:
  "get_aborted n (heap w) this = Some True \<Longrightarrow> abort P run n this w = Some (Returned, w)"
  by (simp add: abort_def)

lemma exec_Throw: "exec P (Suc n) Throw w = Some (Thrown, w)"
  by simp

section \<open>A deeper bound on the calls keeps the result\<close>

lemma then_do_mono:
  assumes "then_do m k = Some r"
    and "\<And>x. m = Some x \<Longrightarrow> m' = Some x"
    and "\<And>w. k w = Some r \<Longrightarrow> k' w = Some r"
  shows "then_do m' k' = Some r"
  using assms by (auto simp: then_do_Some)

lemma every_mono:
  assumes "every f xs = Some b" and "\<And>x c. f x = Some c \<Longrightarrow> g x = Some c"
  shows "every g xs = Some b"
  using assms by (induction xs) (auto split: option.splits if_splits)

lemma get_aborted_Suc: "get_aborted n h this = Some b \<Longrightarrow> get_aborted (Suc n) h this = Some b"
proof (induction n arbitrary: this b)
  case 0
  then show ?case by simp
next
  case (Suc n)
  show ?case
  proof (cases "priv_aborted (h this)")
    case True
    with Suc.prems have "every (get_aborted n h) (children (h this)) = Some b" by simp
    then have "every (get_aborted (Suc n) h) (children (h this)) = Some b"
      by (rule every_mono) (rule Suc.IH)
    with True show ?thesis by simp
  next
    case False
    with Suc.prems show ?thesis by simp
  qed
qed

lemma get_aborted_mono: "n \<le> m \<Longrightarrow> get_aborted n h this = Some b \<Longrightarrow> get_aborted m h this = Some b"
proof (induction rule: dec_induct)
  case base
  then show ?case .
next
  case (step k)
  then show ?case by (blast intro: get_aborted_Suc)
qed

lemma run_seq_mono:
  assumes "run_seq f xs w = Some r" and "\<And>x w r. f x w = Some r \<Longrightarrow> g x w = Some r"
  shows "run_seq g xs w = Some r"
  using assms(1)
proof (induction xs arbitrary: w)
  case Nil
  then show ?case by simp
next
  case (Cons x xs)
  from Cons.prems have "then_do (f x w) (run_seq f xs) = Some r" by simp
  then have "then_do (g x w) (run_seq g xs) = Some r"
    by (rule then_do_mono) (auto intro: assms(2) Cons.IH)
  then show ?case by simp
qed

lemma emit_mono:
  assumes "emit f this ev w = Some r" and "\<And>l w r. f l w = Some r \<Longrightarrow> g l w = Some r"
  shows "emit g this ev w = Some r"
  using assms(1) unfolding emit_def by (rule run_seq_mono) (rule assms(2))

lemma drain_mono:
  assumes "drain f n this w = Some r" and "n \<le> m"
    and "\<And>a w r. f a w = Some r \<Longrightarrow> g a w = Some r"
  shows "drain g m this w = Some r"
  using assms(1,2)
proof (induction n arbitrary: m w)
  case 0
  then show ?case by simp
next
  case (Suc n)
  from Suc.prems(2) obtain m' where m: "m = Suc m'" and le: "n \<le> m'"
    by (cases m) auto
  show ?case
  proof (cases "collections (heap w this)")
    case Nil
    with Suc.prems(1) m show ?thesis by simp
  next
    case (Cons a rest)
    with Suc.prems(1) have
      "then_do (f a (log (OpAbort this a) (upd this (\<lambda>s. s\<lparr>collections := rest\<rparr>) w)))
         (drain f n this) = Some r" by simp
    then have
      "then_do (g a (log (OpAbort this a) (upd this (\<lambda>s. s\<lparr>collections := rest\<rparr>) w)))
         (drain g m' this) = Some r"
      by (rule then_do_mono) (auto intro: assms(3) Suc.IH le)
    with Cons m show ?thesis by simp
  qed
qed

lemma forEach_from_mono:
  assumes "forEach_from f this m k w = Some r"
    and "\<And>i w r. f i w = Some r \<Longrightarrow> g i w = Some r"
  shows "forEach_from g this m k w = Some r"
  using assms(1)
proof (induction k arbitrary: m w)
  case 0
  then show ?case by simp
next
  case (Suc k)
  show ?case
  proof (cases "m < length (children (heap w this))")
    case True
    with Suc.prems have
      "then_do (f (children (heap w this) ! m) w) (forEach_from f this (Suc m) k) = Some r"
      by (simp add: Let_def)
    then have
      "then_do (g (children (heap w this) ! m) w) (forEach_from g this (Suc m) k) = Some r"
      by (rule then_do_mono) (auto intro: assms(2) Suc.IH)
    with True show ?thesis by (simp add: Let_def)
  next
    case False
    with Suc.prems Suc.IH show ?thesis by (simp add: Let_def)
  qed
qed

lemma abort_mono:
  assumes "abort P run n this w = Some r" and "n \<le> m"
    and run: "\<And>c w r. run c w = Some r \<Longrightarrow> run' c w = Some r"
  shows "abort P run' m this w = Some r"
proof -
  from assms(1) obtain b where b: "get_aborted n (heap w) this = Some b"
    by (auto simp: abort_def split: option.splits)
  with assms(2) have b': "get_aborted m (heap w) this = Some b"
    by (rule get_aborted_mono)
  show ?thesis
  proof (cases b)
    case True
    with assms(1) b b' show ?thesis by (simp add: abort_def)
  next
    case False
    have seq: "\<And>body w r. run_seq run body w = Some r \<Longrightarrow> run_seq run' body w = Some r"
      by (erule run_seq_mono) (rule run)
    from assms(1) b False have
      "then_do (emit (\<lambda>l. run_seq run (listener P l)) this EvAbort w) (\<lambda>w1.
       then_do (drain (\<lambda>a. run_seq run (abort_of P a)) n this w1) (\<lambda>w2.
       then_do (forEach_from (\<lambda>i. run (AbortCall i)) this 0
                  (length (children (heap w2 this))) w2) (\<lambda>w3.
       emit (\<lambda>l. run_seq run (listener P l)) this EvAborted
         (set_aborted this True w3)))) = Some r"
      by (simp add: abort_def)
    then have
      "then_do (emit (\<lambda>l. run_seq run' (listener P l)) this EvAbort w) (\<lambda>w1.
       then_do (drain (\<lambda>a. run_seq run' (abort_of P a)) m this w1) (\<lambda>w2.
       then_do (forEach_from (\<lambda>i. run' (AbortCall i)) this 0
                  (length (children (heap w2 this))) w2) (\<lambda>w3.
       emit (\<lambda>l. run_seq run' (listener P l)) this EvAborted
         (set_aborted this True w3)))) = Some r"
      apply (rule then_do_mono)
       apply (erule emit_mono, erule seq)
      apply (erule then_do_mono)
       apply (erule drain_mono [OF _ assms(2)], erule seq)
      apply (erule then_do_mono)
       apply (erule forEach_from_mono, erule run)
      apply (erule emit_mono, erule seq)
      done
    with b' False show ?thesis by (simp add: abort_def)
  qed
qed

lemma exec_Suc: "exec P n c w = Some r \<Longrightarrow> exec P (Suc n) c w = Some r"
proof (induction n arbitrary: c w r)
  case 0
  then show ?case by simp
next
  case (Suc n)
  show ?case
  proof (cases c)
    case (AbortCall this)
    with Suc.prems have "abort P (exec P n) n this w = Some r" by simp
    then have "abort P (exec P (Suc n)) (Suc n) this w = Some r"
      by (rule abort_mono) (simp, erule Suc.IH)
    with AbortCall show ?thesis by simp
  qed (use Suc.prems in auto)
qed

lemma exec_mono: "n \<le> m \<Longrightarrow> exec P n c w = Some r \<Longrightarrow> exec P m c w = Some r"
proof (induction rule: dec_induct)
  case base
  then show ?case .
next
  case (step k)
  then show ?case by (blast intro: exec_Suc)
qed

lemma get_aborted_unique:
  assumes "get_aborted n h x = Some a" and "get_aborted m h x = Some b"
  shows "a = b"
proof -
  have "get_aborted (max n m) h x = Some a"
    using assms(1) by (rule get_aborted_mono [rotated]) simp
  moreover have "get_aborted (max n m) h x = Some b"
    using assms(2) by (rule get_aborted_mono [rotated]) simp
  ultimately show ?thesis by simp
qed

lemma exec_unique:
  assumes "exec P n c w = Some a" and "exec P m c w = Some b"
  shows "a = b"
proof -
  have "exec P (max n m) c w = Some a"
    using assms(1) by (rule exec_mono [rotated]) simp
  moreover have "exec P (max n m) c w = Some b"
    using assms(2) by (rule exec_mono [rotated]) simp
  ultimately show ?thesis by simp
qed

section \<open>The getter\<close>

lemma every_True_iff: "every f xs = Some True \<longleftrightarrow> (\<forall>x \<in> set xs. f x = Some True)"
  by (induction xs) (auto split: option.splits)

lemma every_total: "(\<forall>x \<in> set xs. \<exists>b. f x = Some b) \<Longrightarrow> \<exists>b. every f xs = Some b"
  by (induction xs) (auto split: option.splits)

lemma every_Some_eq:
  "every f xs = Some b \<Longrightarrow> b = (\<forall>x \<in> set xs. f x = Some True)"
  by (induction xs) (auto split: option.splits if_splits)

lemma every_False:
  assumes "x \<in> set xs" and "f x = Some False" and "\<forall>y \<in> set xs. f y \<noteq> None"
  shows "every f xs = Some False"
  using assms by (induction xs) (auto split: option.splits)

lemma get_aborted_total: "ranked h rk \<Longrightarrow> rk x < n \<Longrightarrow> \<exists>b. get_aborted n h x = Some b"
proof (induction n arbitrary: x)
  case 0
  then show ?case by simp
next
  case (Suc n)
  have "\<forall>c \<in> set (children (h x)). \<exists>b. get_aborted n h c = Some b"
  proof
    fix c assume "c \<in> set (children (h x))"
    with Suc.prems have "rk c < n" by (fastforce simp: ranked_def)
    with Suc.prems(1) show "\<exists>b. get_aborted n h c = Some b" by (rule Suc.IH)
  qed
  then have "\<exists>b. every (get_aborted n h) (children (h x)) = Some b" by (rule every_total)
  then show ?case by (cases "priv_aborted (h x)") auto
qed

lemma get_aborted_True_Suc:
  "get_aborted (Suc n) h x = Some True \<longleftrightarrow>
     priv_aborted (h x) \<and> (\<forall>c \<in> set (children (h x)). get_aborted n h c = Some True)"
  by (simp add: every_True_iff)

lemma common_depth:
  "(\<forall>c \<in> set cs. canceled h c) \<Longrightarrow> \<exists>n. \<forall>c \<in> set cs. get_aborted n h c = Some True"
proof (induction cs)
  case Nil
  then show ?case by simp
next
  case (Cons c cs)
  then obtain n where n: "\<forall>c \<in> set cs. get_aborted n h c = Some True" by auto
  from Cons.prems obtain k where k: "get_aborted k h c = Some True"
    by (auto simp: canceled_def)
  have "\<forall>d \<in> set (c # cs). get_aborted (max n k) h d = Some True"
    using n k by (auto intro: get_aborted_mono [of n] get_aborted_mono [of k])
  then show ?case ..
qed

lemma canceled_iff:
  "canceled h x \<longleftrightarrow> priv_aborted (h x) \<and> (\<forall>c \<in> set (children (h x)). canceled h c)"
proof
  assume "canceled h x"
  then obtain n where n: "get_aborted n h x = Some True" by (auto simp: canceled_def)
  then obtain k where "n = Suc k" by (cases n) auto
  with n show "priv_aborted (h x) \<and> (\<forall>c \<in> set (children (h x)). canceled h c)"
    by (auto simp: get_aborted_True_Suc canceled_def simp del: get_aborted.simps)
next
  assume a: "priv_aborted (h x) \<and> (\<forall>c \<in> set (children (h x)). canceled h c)"
  then obtain n where "\<forall>c \<in> set (children (h x)). get_aborted n h c = Some True"
    using common_depth by blast
  with a have "get_aborted (Suc n) h x = Some True"
    unfolding get_aborted_True_Suc by simp
  then show "canceled h x" unfolding canceled_def ..
qed

lemma not_canceled_False:
  assumes "get_aborted n h x = Some b" and "\<not> canceled h x"
  shows "b = False"
  using assms by (cases b) (auto simp: canceled_def)

lemma not_canceled_if_False: "get_aborted k h x = Some False \<Longrightarrow> \<not> canceled h x"
  unfolding canceled_def by (blast dest: get_aborted_unique)

text \<open>
  A scope whose getter answers true is not among its own descendants: changing that
  scope alone leaves the answer of its children as it was.
\<close>

lemma get_aborted_frame:
  assumes "\<forall>y. y \<noteq> r \<longrightarrow> h' y = h y" and "\<forall>j. get_aborted j h r = Some True \<longrightarrow> n < j"
  shows "get_aborted n h x = Some True \<Longrightarrow> get_aborted n h' x = Some True"
  using assms(2)
proof (induction n arbitrary: x)
  case 0
  then show ?case by simp
next
  case (Suc n)
  from Suc.prems have "x \<noteq> r" by blast
  with assms(1) have same: "h' x = h x" by simp
  have old: "priv_aborted (h x) \<and> (\<forall>c \<in> set (children (h x)). get_aborted n h c = Some True)"
    using Suc.prems(1) unfolding get_aborted_True_Suc .
  have "\<forall>c \<in> set (children (h x)). get_aborted n h' c = Some True"
  proof
    fix c assume "c \<in> set (children (h x))"
    with old have "get_aborted n h c = Some True" by simp
    moreover from Suc.prems(2) have "\<forall>j. get_aborted j h r = Some True \<longrightarrow> n < j"
      by (auto dest: Suc_lessD)
    ultimately show "get_aborted n h' c = Some True" by (rule Suc.IH)
  qed
  with old same show ?case unfolding get_aborted_True_Suc by simp
qed

lemma canceled_children_frame:
  assumes "get_aborted k h r = Some True" and "\<forall>y. y \<noteq> r \<longrightarrow> h' y = h y"
  shows "\<exists>n. \<forall>c \<in> set (children (h r)). get_aborted n h' c = Some True"
proof -
  define m where "m = (LEAST j. get_aborted j h r = Some True)"
  from assms(1) have m: "get_aborted m h r = Some True"
    unfolding m_def by (rule LeastI)
  have least: "m \<le> j" if "get_aborted j h r = Some True" for j
    unfolding m_def using that by (rule Least_le)
  from m obtain n where n: "m = Suc n" by (cases m) auto
  with m have old: "\<forall>c \<in> set (children (h r)). get_aborted n h c = Some True"
    by (simp add: get_aborted_True_Suc del: get_aborted.simps)
  have low: "\<forall>j. get_aborted j h r = Some True \<longrightarrow> n < j"
    using least n by fastforce
  have "\<forall>c \<in> set (children (h r)). get_aborted n h' c = Some True"
  proof
    fix c assume "c \<in> set (children (h r))"
    with old have "get_aborted n h c = Some True" by simp
    with assms(2) low show "get_aborted n h' c = Some True" by (rule get_aborted_frame)
  qed
  then show ?thesis ..
qed

section \<open>What a pass keeps\<close>

lemma stable_refl [simp]: "stable w w"
  by (simp add: stable_def)

lemma stable_trans: "stable w w' \<Longrightarrow> stable w' w'' \<Longrightarrow> stable w w''"
  unfolding stable_def by metis

lemma stable_children: "stable w w' \<Longrightarrow> children (heap w' x) = children (heap w x)"
  by (simp add: stable_def)

lemma stable_emitter: "stable w w' \<Longrightarrow> emitter (heap w' x) = emitter (heap w x)"
  by (simp add: stable_def)

lemma stable_ranked: "stable w w' \<Longrightarrow> ranked (heap w) rk \<Longrightarrow> ranked (heap w') rk"
  by (simp add: stable_def ranked_def)

lemma stable_collections_empty:
  "stable w w' \<Longrightarrow> collections (heap w x) = [] \<Longrightarrow> collections (heap w' x) = []"
  unfolding stable_def by metis

lemma stable_get_aborted:
  "stable w w' \<Longrightarrow> get_aborted n (heap w) x = Some True \<Longrightarrow> get_aborted n (heap w') x = Some True"
proof (induction n arbitrary: x)
  case 0
  then show ?case by simp
next
  case (Suc n)
  have old: "priv_aborted (heap w x) \<and> (\<forall>c \<in> set (children (heap w x)). get_aborted n (heap w) c = Some True)"
    using Suc.prems(2) unfolding get_aborted_True_Suc .
  from Suc.prems(1) have same: "children (heap w' x) = children (heap w x)"
    and flag: "priv_aborted (heap w x) \<longrightarrow> priv_aborted (heap w' x)"
    by (simp_all add: stable_def)
  have "\<forall>c \<in> set (children (heap w' x)). get_aborted n (heap w') c = Some True"
  proof
    fix c assume "c \<in> set (children (heap w' x))"
    with same old have "get_aborted n (heap w) c = Some True" by simp
    with Suc.prems(1) show "get_aborted n (heap w') c = Some True" by (rule Suc.IH)
  qed
  with old flag show ?case unfolding get_aborted_True_Suc by simp
qed

lemma stable_canceled: "stable w w' \<Longrightarrow> canceled (heap w) x \<Longrightarrow> canceled (heap w') x"
  unfolding canceled_def by (blast intro: stable_get_aborted)

lemma stable_logs [simp]: "stable w (logs es w)"
  by (simp add: stable_def)

lemma stable_set_aborted_True [simp]: "stable w (set_aborted this True w)"
  by (simp add: stable_def)

lemma stable_drop_collections [simp]: "stable w (upd this (\<lambda>s. s\<lparr>collections := []\<rparr>) w)"
  by (simp add: stable_def)

section \<open>The steps of a pass when the callbacks are quiet\<close>

lemma run_seq_log:
  "run_seq (\<lambda>l w'. Some (Returned, log (H l) w')) ls w = Some (Returned, logs (map H ls) w)"
  by (induction ls arbitrary: w) (simp_all add: logs_log)

lemma emit_quiet:
  assumes "quiet P"
  shows "emit (\<lambda>l. run_seq run (listener P l)) r ev w =
         Some (Returned, logs (Emit r ev # map (Handler r ev) (emitter (heap w r) ev)) w)"
  using assms by (simp add: emit_def quiet_def run_seq_log logs_log)

lemma emit_quiet_local:
  assumes "\<forall>l \<in> set (emitter (heap w r) ev). listener P l = []"
  shows "emit (\<lambda>l. run_seq run (listener P l)) r ev w =
         Some (Returned, logs (Emit r ev # map (Handler r ev) (emitter (heap w r) ev)) w)"
proof -
  have "run_seq (\<lambda>l w'. run_seq run (listener P l) (log (Handler r ev l) w')) ls v =
        Some (Returned, logs (map (Handler r ev) ls) v)"
    if "\<forall>l \<in> set ls. listener P l = []" for ls v
    using that by (induction ls arbitrary: v) (simp_all add: logs_log)
  from this [OF assms] show ?thesis by (simp add: emit_def logs_log)
qed

lemma quiet_abort_of: "quiet P \<Longrightarrow> (\<lambda>a. run_seq run (abort_of P a)) = (\<lambda>a w. Some (Returned, w))"
  by (simp add: quiet_def fun_eq_iff)

lemma drain_returning:
  "length (collections (heap w r)) < n \<Longrightarrow>
   drain (\<lambda>a w. Some (Returned, w)) n r w =
   Some (Returned, logs (map (OpAbort r) (collections (heap w r)))
                     (upd r (\<lambda>s. s\<lparr>collections := []\<rparr>) w))"
proof (induction n arbitrary: w)
  case 0
  then show ?case by simp
next
  case (Suc n)
  show ?case
  proof (cases "collections (heap w r)")
    case Nil
    then have "(heap w r)\<lparr>collections := []\<rparr> = heap w r"
      by (cases "heap w r") auto
    then have "upd r (\<lambda>s. s\<lparr>collections := []\<rparr>) w = w"
      by (simp add: upd_def)
    with Nil show ?thesis by simp
  next
    case (Cons a rest)
    let ?w1 = "log (OpAbort r a) (upd r (\<lambda>s. s\<lparr>collections := rest\<rparr>) w)"
    have c1: "collections (heap ?w1 r) = rest" by simp
    with Suc.prems Cons have "length (collections (heap ?w1 r)) < n" by simp
    from Suc.IH [OF this] have
      "drain (\<lambda>a w. Some (Returned, w)) n r ?w1 =
         Some (Returned, logs (map (OpAbort r) rest) (upd r (\<lambda>s. s\<lparr>collections := []\<rparr>) ?w1))"
      by (simp only: c1)
    moreover have "logs (map (OpAbort r) rest) (upd r (\<lambda>s. s\<lparr>collections := []\<rparr>) ?w1)
      = logs (map (OpAbort r) (a # rest)) (upd r (\<lambda>s. s\<lparr>collections := []\<rparr>) w)"
      by (simp add: logs_def log_def upd_def)
    ultimately show ?thesis using Cons by simp
  qed
qed

lemma drain_quiet:
  assumes "quiet P" and "length (collections (heap w r)) < n"
  shows "drain (\<lambda>a. run_seq run (abort_of P a)) n r w =
         Some (Returned, logs (map (OpAbort r) (collections (heap w r)))
                           (upd r (\<lambda>s. s\<lparr>collections := []\<rparr>) w))"
  using assms(2) by (simp only: quiet_abort_of [OF assms(1)] drain_returning)

lemma drain_quiet_local:
  "\<forall>a \<in> set (collections (heap w r)). abort_of P a = [] \<Longrightarrow>
   length (collections (heap w r)) < n \<Longrightarrow>
   drain (\<lambda>a. run_seq run (abort_of P a)) n r w =
   Some (Returned, logs (map (OpAbort r) (collections (heap w r)))
                     (upd r (\<lambda>s. s\<lparr>collections := []\<rparr>) w))"
proof (induction n arbitrary: w)
  case 0
  then show ?case by simp
next
  case (Suc n)
  show ?case
  proof (cases "collections (heap w r)")
    case Nil
    then have "(heap w r)\<lparr>collections := []\<rparr> = heap w r"
      by (cases "heap w r") auto
    then have "upd r (\<lambda>s. s\<lparr>collections := []\<rparr>) w = w"
      by (simp add: upd_def)
    with Nil show ?thesis by simp
  next
    case (Cons a rest)
    let ?w1 = "log (OpAbort r a) (upd r (\<lambda>s. s\<lparr>collections := rest\<rparr>) w)"
    have c1: "collections (heap ?w1 r) = rest" by simp
    from Suc.prems(1) Cons have qa: "abort_of P a = []" by simp
    from Suc.prems(1) Cons have "\<forall>a \<in> set (collections (heap ?w1 r)). abort_of P a = []"
      by simp
    moreover from Suc.prems(2) Cons have "length (collections (heap ?w1 r)) < n" by simp
    ultimately have
      "drain (\<lambda>a. run_seq run (abort_of P a)) n r ?w1 =
         Some (Returned, logs (map (OpAbort r) (collections (heap ?w1 r)))
            (upd r (\<lambda>s. s\<lparr>collections := []\<rparr>) ?w1))"
      by (rule Suc.IH)
    moreover have "logs (map (OpAbort r) (collections (heap ?w1 r)))
            (upd r (\<lambda>s. s\<lparr>collections := []\<rparr>) ?w1)
      = logs (map (OpAbort r) (a # rest)) (upd r (\<lambda>s. s\<lparr>collections := []\<rparr>) w)"
      by (simp add: logs_def log_def upd_def)
    ultimately show ?thesis using Cons qa by simp
  qed
qed

lemma forEach_canceled:
  assumes "\<forall>c \<in> set (children (heap w r)). get_aborted n (heap w) c = Some True"
  shows "forEach_from (\<lambda>i. exec P (Suc n) (AbortCall i)) r m k w = Some (Returned, w)"
proof (induction k arbitrary: m)
  case 0
  then show ?case by simp
next
  case (Suc k)
  show ?case
  proof (cases "m < length (children (heap w r))")
    case True
    then have "children (heap w r) ! m \<in> set (children (heap w r))" by simp
    with assms have "get_aborted n (heap w) (children (heap w r) ! m) = Some True" by blast
    then have "exec P (Suc n) (AbortCall (children (heap w r) ! m)) w = Some (Returned, w)"
      by (simp add: abort_canceled)
    with True Suc.IH show ?thesis by (simp add: Let_def)
  next
    case False
    with Suc.IH show ?thesis by (simp add: Let_def)
  qed
qed

text \<open>
  The loop over the children, given that the pass of every scope ranked below \<open>r\<close>
  returns, keeps what \<open>stable\<close> says and leaves that scope canceled.
\<close>

lemma forEach_children_quiet:
  assumes IH: "\<And>c w. rk c < rk r \<Longrightarrow> ranked (heap w) rk \<Longrightarrow>
      \<exists>n w' t. exec P n (AbortCall c) w = Some (Returned, w') \<and> stable w w'
        \<and> trace w' = trace w @ t \<and> canceled (heap w') c
        \<and> (\<forall>e \<in> set t. rk (obs_ref e) \<le> rk c)"
  shows "ranked (heap w) rk \<Longrightarrow>
     \<exists>n w' t. forEach_from (\<lambda>i. exec P n (AbortCall i)) r m k w = Some (Returned, w')
       \<and> stable w w' \<and> trace w' = trace w @ t
       \<and> (\<forall>e \<in> set t. rk (obs_ref e) < rk r)
       \<and> (\<forall>i. m \<le> i \<and> i < m + k \<and> i < length (children (heap w r))
              \<longrightarrow> canceled (heap w') (children (heap w r) ! i))
       \<and> (k = 0 \<longrightarrow> t = [])"
proof (induction k arbitrary: m w)
  case 0
  have "forEach_from (\<lambda>i. exec P 0 (AbortCall i)) r m 0 w = Some (Returned, w)
     \<and> stable w w \<and> trace w = trace w @ []" by simp
  then show ?case by fastforce
next
  case (Suc k)
  let ?cs = "children (heap w r)"
  show ?case
  proof (cases "m < length ?cs")
    case False
    from Suc.IH [OF Suc.prems, of "Suc m"] obtain n w' t where
      run: "forEach_from (\<lambda>i. exec P n (AbortCall i)) r (Suc m) k w = Some (Returned, w')"
      and st: "stable w w'" and tr: "trace w' = trace w @ t"
      and rk: "\<forall>e \<in> set t. rk (obs_ref e) < rk r"
      by blast
    from run False have
      "forEach_from (\<lambda>i. exec P n (AbortCall i)) r m (Suc k) w = Some (Returned, w')"
      by (simp add: Let_def)
    moreover from False have
      "\<forall>i. m \<le> i \<and> i < m + Suc k \<and> i < length ?cs \<longrightarrow> canceled (heap w') (?cs ! i)"
      by auto
    ultimately show ?thesis using st tr rk by blast
  next
    case True
    let ?c = "?cs ! m"
    from True have "?c \<in> set ?cs" by simp
    with Suc.prems have lt: "rk ?c < rk r" by (auto simp: ranked_def)
    from IH [OF lt Suc.prems] obtain n1 w1 t1 where
      c: "exec P n1 (AbortCall ?c) w = Some (Returned, w1)"
      and st1: "stable w w1" and tr1: "trace w1 = trace w @ t1"
      and can1: "canceled (heap w1) ?c"
      and rk1: "\<forall>e \<in> set t1. rk (obs_ref e) \<le> rk ?c"
      by blast
    from st1 Suc.prems have "ranked (heap w1) rk" by (rule stable_ranked)
    from Suc.IH [OF this, of "Suc m"] obtain n2 w2 t2 where
      run: "forEach_from (\<lambda>i. exec P n2 (AbortCall i)) r (Suc m) k w1 = Some (Returned, w2)"
      and st2: "stable w1 w2" and tr2: "trace w2 = trace w1 @ t2"
      and rk2: "\<forall>e \<in> set t2. rk (obs_ref e) < rk r"
      and can2: "\<forall>i. Suc m \<le> i \<and> i < Suc m + k \<and> i < length (children (heap w1 r))
              \<longrightarrow> canceled (heap w2) (children (heap w1 r) ! i)"
      by blast
    let ?n = "max n1 n2"
    have c': "exec P ?n (AbortCall ?c) w = Some (Returned, w1)"
      using c by (rule exec_mono [rotated]) simp
    have run': "forEach_from (\<lambda>i. exec P ?n (AbortCall i)) r (Suc m) k w1 = Some (Returned, w2)"
      using run by (rule forEach_from_mono) (erule exec_mono [rotated], simp)
    from True c' run' have
      "forEach_from (\<lambda>i. exec P ?n (AbortCall i)) r m (Suc k) w = Some (Returned, w2)"
      by (simp add: Let_def)
    moreover from st1 st2 have "stable w w2" by (rule stable_trans)
    moreover from tr1 tr2 have "trace w2 = trace w @ (t1 @ t2)" by simp
    moreover from rk1 rk2 lt have "\<forall>e \<in> set (t1 @ t2). rk (obs_ref e) < rk r" by auto
    moreover have "\<forall>i. m \<le> i \<and> i < m + Suc k \<and> i < length ?cs \<longrightarrow> canceled (heap w2) (?cs ! i)"
    proof (intro allI impI)
      fix i assume i: "m \<le> i \<and> i < m + Suc k \<and> i < length ?cs"
      show "canceled (heap w2) (?cs ! i)"
      proof (cases "i = m")
        case True
        with can1 st2 show ?thesis by (auto intro: stable_canceled)
      next
        case False
        with i can2 stable_children [OF st1, of r] show ?thesis by simp
      qed
    qed
    ultimately show ?thesis by blast
  qed
qed

text \<open>
  One call of \<open>abort()\<close> under quiet callbacks on a well-founded heap: it returns;
  a scope that already reports canceled is left alone; otherwise the pass emits
  \<open>abort\<close>, drains \<open>collections\<close> in order, runs the children, sets the flag and
  emits \<open>aborted\<close>, and the scope reports canceled afterwards.
\<close>

lemma abort_quiet:
  assumes q: "quiet P"
  shows "ranked (heap w) rk \<Longrightarrow>
    \<exists>n w' t. exec P n (AbortCall r) w = Some (Returned, w') \<and> stable w w'
      \<and> trace w' = trace w @ t \<and> canceled (heap w') r
      \<and> (\<forall>e \<in> set t. rk (obs_ref e) \<le> rk r)
      \<and> (canceled (heap w) r \<longrightarrow> w' = w)
      \<and> (\<not> canceled (heap w) r \<longrightarrow>
            collections (heap w' r) = []
          \<and> (\<exists>tc. t = pass_trace w r tc \<and> (\<forall>e \<in> set tc. rk (obs_ref e) < rk r)
                 \<and> (children (heap w r) = [] \<longrightarrow> tc = [])))"
proof (induction "rk r" arbitrary: r w rule: less_induct)
  case less
  show ?case
  proof (cases "canceled (heap w) r")
    case True
    then obtain m where "get_aborted m (heap w) r = Some True"
      by (auto simp: canceled_def)
    then have "exec P (Suc m) (AbortCall r) w = Some (Returned, w)"
      by (simp add: abort_canceled)
    with True have "exec P (Suc m) (AbortCall r) w = Some (Returned, w) \<and> stable w w
      \<and> trace w = trace w @ [] \<and> canceled (heap w) r
      \<and> (\<forall>e \<in> set []. rk (obs_ref e) \<le> rk r)" by simp
    with True show ?thesis by blast
  next
    case False
    let ?ls1 = "emitter (heap w r) EvAbort"
    let ?ls2 = "emitter (heap w r) EvAborted"
    let ?cs = "collections (heap w r)"
    let ?w1 = "logs (Emit r EvAbort # map (Handler r EvAbort) ?ls1) w"
    let ?w2 = "logs (map (OpAbort r) ?cs) (upd r (\<lambda>s. s\<lparr>collections := []\<rparr>) ?w1)"
    have st1: "stable w ?w1" by simp
    have st12: "stable ?w1 ?w2"
      by (rule stable_trans [OF stable_drop_collections stable_logs])
    from st1 st12 have st2: "stable w ?w2" by (rule stable_trans)
    from st2 less.prems have rk2: "ranked (heap ?w2) rk" by (rule stable_ranked)
    have IH: "\<exists>n w' t. exec P n (AbortCall c) v = Some (Returned, w') \<and> stable v w'
        \<and> trace w' = trace v @ t \<and> canceled (heap w') c
        \<and> (\<forall>e \<in> set t. rk (obs_ref e) \<le> rk c)"
      if "rk c < rk r" and "ranked (heap v) rk" for c v
    proof -
      from less.hyps [OF that] obtain n w' t where
        "exec P n (AbortCall c) v = Some (Returned, w')" "stable v w'"
        "trace w' = trace v @ t" "canceled (heap w') c"
        "\<forall>e \<in> set t. rk (obs_ref e) \<le> rk c"
        by blast
      then show ?thesis by blast
    qed
    from forEach_children_quiet [of rk r P ?w2 0 "length (children (heap ?w2 r))", OF IH rk2]
    obtain n3 w3 tc where
      loop: "forEach_from (\<lambda>i. exec P n3 (AbortCall i)) r 0 (length (children (heap ?w2 r))) ?w2
             = Some (Returned, w3)"
      and st3: "stable ?w2 w3" and tr3: "trace w3 = trace ?w2 @ tc"
      and rk3: "\<forall>e \<in> set tc. rk (obs_ref e) < rk r"
      and can3: "\<forall>i. i < length (children (heap ?w2 r))
                  \<longrightarrow> canceled (heap w3) (children (heap ?w2 r) ! i)"
      and nil3: "length (children (heap ?w2 r)) = 0 \<longrightarrow> tc = []"
      by auto
    let ?w4 = "set_aborted r True w3"
    let ?w5 = "logs (Emit r EvAborted # map (Handler r EvAborted) (emitter (heap ?w4 r) EvAborted)) ?w4"
    let ?N = "max (Suc (rk r)) (max (Suc (length ?cs)) n3)"
    from get_aborted_total [OF less.prems, of r "Suc (rk r)"]
    obtain b where "get_aborted (Suc (rk r)) (heap w) r = Some b" by blast
    with False have "get_aborted (Suc (rk r)) (heap w) r = Some False"
      using not_canceled_False by blast
    then have g: "get_aborted ?N (heap w) r = Some False"
      by (rule get_aborted_mono [rotated]) simp
    have e1: "emit (\<lambda>l. run_seq (exec P ?N) (listener P l)) r EvAbort w = Some (Returned, ?w1)"
      using q by (rule emit_quiet)
    have "length (collections (heap ?w1 r)) < ?N" by simp
    with q have "drain (\<lambda>a. run_seq (exec P ?N) (abort_of P a)) ?N r ?w1 =
        Some (Returned, logs (map (OpAbort r) (collections (heap ?w1 r)))
                          (upd r (\<lambda>s. s\<lparr>collections := []\<rparr>) ?w1))"
      by (rule drain_quiet)
    then have d: "drain (\<lambda>a. run_seq (exec P ?N) (abort_of P a)) ?N r ?w1 = Some (Returned, ?w2)"
      by simp
    have loop': "forEach_from (\<lambda>i. exec P ?N (AbortCall i)) r 0
        (length (children (heap ?w2 r))) ?w2 = Some (Returned, w3)"
      using loop by (rule forEach_from_mono) (erule exec_mono [rotated], simp)
    have e2: "emit (\<lambda>l. run_seq (exec P ?N) (listener P l)) r EvAborted ?w4 = Some (Returned, ?w5)"
      using q by (rule emit_quiet)
    have "abort P (exec P ?N) ?N r w = Some (Returned, ?w5)"
      by (simp only: abort_not_canceled [OF g] e1 d loop' e2 then_do_Returned)
    then have ex: "exec P (Suc ?N) (AbortCall r) w = Some (Returned, ?w5)" by simp
    have st35: "stable w3 ?w5"
      by (rule stable_trans [OF stable_set_aborted_True stable_logs])
    from st2 st3 have st03: "stable w w3" by (rule stable_trans)
    from st03 st35 have st5: "stable w ?w5" by (rule stable_trans)
    have em: "emitter (heap w3 r) = emitter (heap w r)"
      using st03 by (rule stable_emitter)
    have tr5: "trace ?w5 = trace w @ pass_trace w r tc"
      using tr3 by (simp add: em pass_trace_def)
    have ch2: "children (heap ?w2 r) = children (heap w r)"
      using stable_children [OF st2] .
    have ch5: "children (heap ?w5 r) = children (heap w r)"
      using stable_children [OF st5] .
    have "\<forall>c \<in> set (children (heap ?w5 r)). canceled (heap ?w5) c"
    proof
      fix c assume "c \<in> set (children (heap ?w5 r))"
      with ch5 ch2 obtain i where "i < length (children (heap ?w2 r))"
        and "c = children (heap ?w2 r) ! i"
        by (auto simp: in_set_conv_nth)
      with can3 have "canceled (heap w3) c" by simp
      with st35 show "canceled (heap ?w5) c" by (rule stable_canceled)
    qed
    moreover have "priv_aborted (heap ?w5 r)" by simp
    ultimately have can5: "canceled (heap ?w5) r"
      by (subst canceled_iff) simp
    have "collections (heap ?w2 r) = []" by simp
    with st3 have "collections (heap w3 r) = []" by (rule stable_collections_empty)
    then have col5: "collections (heap ?w5 r) = []" by simp
    have bound: "\<forall>e \<in> set (pass_trace w r tc). rk (obs_ref e) \<le> rk r"
      using rk3 by (auto simp: pass_trace_def)
    from nil3 ch2 have nil: "children (heap w r) = [] \<longrightarrow> tc = []" by simp
    from ex st5 tr5 can5 bound col5 rk3 nil False show ?thesis by blast
  qed
qed

text \<open>
  The state a completed pass leaves when the children needed no pass of their own:
  the flag set, \<open>collections\<close> empty, the observations of the pass logged.
\<close>

lemma abort_quiet_flat:
  assumes q1: "\<forall>l \<in> set (emitter (heap w r) EvAbort). listener P l = []"
    and q2: "\<forall>l \<in> set (emitter (heap w r) EvAborted). listener P l = []"
    and q3: "\<forall>a \<in> set (collections (heap w r)). abort_of P a = []"
    and g: "get_aborted (Suc n) (heap w) r = Some False"
    and len: "length (collections (heap w r)) \<le> n"
    and ch: "\<forall>c \<in> set (children (heap w r)).
        get_aborted n ((heap w)(r := (heap w r)\<lparr>collections := []\<rparr>)) c = Some True"
  shows "exec P (Suc (Suc n)) (AbortCall r) w =
     Some (Returned, logs (pass_trace w r [])
             (upd r (\<lambda>s. s\<lparr>collections := [], priv_aborted := True\<rparr>) w))"
proof -
  let ?N = "Suc n"
  let ?w1 = "logs (Emit r EvAbort # map (Handler r EvAbort) (emitter (heap w r) EvAbort)) w"
  let ?w2 = "logs (map (OpAbort r) (collections (heap w r))) (upd r (\<lambda>s. s\<lparr>collections := []\<rparr>) ?w1)"
  let ?w4 = "set_aborted r True ?w2"
  let ?w5 = "logs (Emit r EvAborted # map (Handler r EvAborted) (emitter (heap ?w4 r) EvAborted)) ?w4"
  have e1: "emit (\<lambda>l. run_seq (exec P ?N) (listener P l)) r EvAbort w = Some (Returned, ?w1)"
    using q1 by (rule emit_quiet_local)
  from q3 have "\<forall>a \<in> set (collections (heap ?w1 r)). abort_of P a = []" by simp
  moreover from len have "length (collections (heap ?w1 r)) < ?N" by simp
  ultimately have "drain (\<lambda>a. run_seq (exec P ?N) (abort_of P a)) ?N r ?w1 =
      Some (Returned, logs (map (OpAbort r) (collections (heap ?w1 r)))
                        (upd r (\<lambda>s. s\<lparr>collections := []\<rparr>) ?w1))"
    by (rule drain_quiet_local)
  then have d: "drain (\<lambda>a. run_seq (exec P ?N) (abort_of P a)) ?N r ?w1 = Some (Returned, ?w2)"
    by simp
  from ch have "\<forall>c \<in> set (children (heap ?w2 r)). get_aborted n (heap ?w2) c = Some True"
    by simp
  then have loop: "forEach_from (\<lambda>i. exec P ?N (AbortCall i)) r 0
      (length (children (heap ?w2 r))) ?w2 = Some (Returned, ?w2)"
    by (rule forEach_canceled)
  from q2 have "\<forall>l \<in> set (emitter (heap ?w4 r) EvAborted). listener P l = []" by simp
  then have e2: "emit (\<lambda>l. run_seq (exec P ?N) (listener P l)) r EvAborted ?w4 = Some (Returned, ?w5)"
    by (rule emit_quiet_local)
  have "abort P (exec P ?N) ?N r w = Some (Returned, ?w5)"
    by (simp only: abort_not_canceled [OF g] e1 d loop e2 then_do_Returned)
  moreover have "?w5 = logs (pass_trace w r [])
             (upd r (\<lambda>s. s\<lparr>collections := [], priv_aborted := True\<rparr>) w)"
    by (simp add: logs_def upd_def set_aborted_def pass_trace_def)
  ultimately show ?thesis by simp
qed

section \<open>Counting in the observations of a pass\<close>

lemma count_list_map_Handler_Emit [simp]:
  "count_list (map (Handler r ev) ls) (Emit r' ev') = 0"
  by (induction ls) auto

lemma count_list_map_OpAbort_Emit [simp]:
  "count_list (map (OpAbort r) cs) (Emit r' ev') = 0"
  by (induction cs) auto

lemma count_list_map_Handler_OpAbort [simp]:
  "count_list (map (Handler r ev) ls) (OpAbort r' a) = 0"
  by (induction ls) auto

lemma count_list_map_OpAbort [simp]:
  "count_list (map (OpAbort r) cs) (OpAbort r a) = count_list cs a"
  by (induction cs) auto

lemma count_list_lower:
  fixes rk :: "ref \<Rightarrow> nat"
  assumes "\<forall>e \<in> set tc. rk (obs_ref e) < rk r" and "obs_ref x = r"
  shows "count_list tc x = 0"
proof -
  have "x \<notin> set tc"
  proof
    assume "x \<in> set tc"
    with assms(1) have "rk (obs_ref x) < rk r" by blast
    with assms(2) show False by simp
  qed
  then show ?thesis by (simp add: count_list_0_iff)
qed

lemma count_pass_trace_Emit:
  fixes rk :: "ref \<Rightarrow> nat"
  assumes "\<forall>e \<in> set tc. rk (obs_ref e) < rk r"
  shows "count_list (pass_trace w r tc) (Emit r EvAbort) = 1"
    and "count_list (pass_trace w r tc) (Emit r EvAborted) = 1"
  using count_list_lower [OF assms, of "Emit r EvAbort"]
    count_list_lower [OF assms, of "Emit r EvAborted"]
  by (simp_all add: pass_trace_def)

lemma count_pass_trace_OpAbort:
  fixes rk :: "ref \<Rightarrow> nat"
  assumes "\<forall>e \<in> set tc. rk (obs_ref e) < rk r"
  shows "count_list (pass_trace w r tc) (OpAbort r a) = count_list (collections (heap w r)) a"
  using count_list_lower [OF assms, of "OpAbort r a"]
  by (simp add: pass_trace_def)

lemma count_list_distinct: "distinct xs \<Longrightarrow> x \<in> set xs \<Longrightarrow> count_list xs x = 1"
  by (induction xs) (auto simp: count_list_0_iff)

section \<open>Facts about the concrete inputs\<close>

lemma flagged_world_built: "flagged_world = set_aborted 0 True (collect 0 1 empty_world)"
  by (simp add: flagged_world_def empty_world_def collect_def set_aborted_def upd_def
      includes_elem_def indexOf_def new_MagicAborter_def)

lemma family_world_built:
  "family_world =
     collect 1 7 (onAborted 0 6 (onAbort 0 5
       (collect 0 4 (collect 0 3 (addChildAborter 0 1 empty_world)))))"
  by (simp add: family_world_def empty_world_def collect_def set_aborted_def upd_def
      includes_elem_def indexOf_def new_MagicAborter_def onAbort_def onAborted_def on_def
      emitter_on_def addChildAborter_def fun_eq_iff)

lemma quiet_quiet_program: "quiet quiet_program"
  by (simp add: quiet_def quiet_program_def)

lemma ranked_family_world: "ranked (heap family_world) family_rank"
  by (simp add: ranked_def family_world_def family_rank_def new_MagicAborter_def)

lemma family_world_0:
  "heap family_world 0 = \<lparr>priv_aborted = False, children = [1], collections = [3, 4],
       emitter = (\<lambda>_. [])(EvAbort := [5], EvAborted := [6])\<rparr>"
    "trace family_world = []"
  by (simp_all add: family_world_def)

lemma listening_world_0:
  "heap listening_world 0 = \<lparr>priv_aborted = False, children = [], collections = [],
       emitter = (\<lambda>_. [])(EvAbort := [5], EvAborted := [6])\<rparr>"
    "trace listening_world = []"
  by (auto simp: listening_world_def onAbort_def onAborted_def on_def emitter_on_def
      empty_world_def new_MagicAborter_def)

lemma registering_world_0:
  "heap registering_world 0 = \<lparr>priv_aborted = False, children = [], collections = [3],
       emitter = (\<lambda>_. [])(EvAbort := [5], EvAborted := [6])\<rparr>"
    "trace registering_world = []"
  by (simp_all add: registering_world_def)

section \<open>What a pass guarantees\<close>

text \<open>
  C1, as amended. On a scope that does not report canceled, with quiet callbacks and a
  well-founded children relation, \<open>abort()\<close> returns normally (and with one result,
  whatever the depth allowed); afterwards the getter \<open>aborted\<close> is true,
  \<open>collections\<close> is empty, and the call has emitted \<open>abort\<close> once and \<open>aborted\<close> once
  on the scope.
\<close>

theorem abort_pass_guarantee:
  assumes "quiet P" and "ranked (heap w) rk" and "get_aborted k (heap w) r = Some False"
  shows "\<exists>n w' t. exec P n (AbortCall r) w = Some (Returned, w')
      \<and> (\<forall>m res. exec P m (AbortCall r) w = Some res \<longrightarrow> res = (Returned, w'))
      \<and> (\<exists>m. get_aborted m (heap w') r = Some True)
      \<and> collections (heap w' r) = []
      \<and> trace w' = trace w @ t
      \<and> count_list t (Emit r EvAbort) = 1
      \<and> count_list t (Emit r EvAborted) = 1"
proof -
  from assms(3) have nc: "\<not> canceled (heap w) r" by (rule not_canceled_if_False)
  from abort_quiet [OF assms(1,2), of r] nc obtain n w' tc where
    ex: "exec P n (AbortCall r) w = Some (Returned, w')"
    and can: "canceled (heap w') r"
    and col: "collections (heap w' r) = []"
    and tr: "trace w' = trace w @ pass_trace w r tc"
    and low: "\<forall>e \<in> set tc. rk (obs_ref e) < rk r"
    by blast
  from ex have "\<forall>m res. exec P m (AbortCall r) w = Some res \<longrightarrow> res = (Returned, w')"
    by (blast dest: exec_unique)
  moreover from can have "\<exists>m. get_aborted m (heap w') r = Some True"
    by (simp add: canceled_def)
  ultimately show ?thesis
    using ex col tr count_pass_trace_Emit [OF low, of w] by blast
qed

theorem abort_pass_guarantee_witness:
  "\<exists>n w' t. exec quiet_program n (AbortCall 0) family_world = Some (Returned, w')
      \<and> (\<exists>m. get_aborted m (heap w') 0 = Some True)
      \<and> collections (heap w' 0) = []
      \<and> trace w' = trace family_world @ t
      \<and> count_list t (Emit 0 EvAbort) = 1
      \<and> count_list t (Emit 0 EvAborted) = 1"
proof -
  have "get_aborted 1 (heap family_world) 0 = Some False"
    by (simp add: family_world_def)
  from abort_pass_guarantee [OF quiet_quiet_program ranked_family_world this]
  show ?thesis by blast
qed

text \<open>
  C1 as stated fails when a callback registers an object, though none throws.
  Listener 6, an \<open>aborted\<close> listener of scope 0, calls \<open>collect\<close> of object 9 on scope
  0: \<open>abort()\<close> returns normally, and afterwards the getter \<open>aborted\<close> answers false
  and \<open>collections\<close> holds object 9.
\<close>

theorem abort_rearmed_by_listener:
  "observe 2 0 (exec rearming_program 4 (AbortCall 0) family_world) =
     Some (Returned, Some False, [9],
       [Emit 0 EvAbort, Handler 0 EvAbort 5, OpAbort 0 3, OpAbort 0 4,
        Emit 1 EvAbort, OpAbort 1 7, Emit 1 EvAborted,
        Emit 0 EvAborted, Handler 0 EvAborted 6])"
  by code_simp

section \<open>Removing a child that is not there\<close>

lemma indexOf_from_take_drop:
  "x \<in> set xs \<Longrightarrow> 0 \<le> k \<Longrightarrow>
   take (nat (indexOf_from xs x k - k)) xs @ drop (Suc (nat (indexOf_from xs x k - k))) xs
     = remove1 x xs"
proof (induction xs arbitrary: k)
  case Nil
  then show ?case by simp
next
  case (Cons y ys)
  show ?case
  proof (cases "y = x")
    case True
    then show ?thesis by simp
  next
    case False
    with Cons.prems have in_ys: "x \<in> set ys" by simp
    from indexOf_from_present [OF in_ys, of "k + 1"]
    have "nat (indexOf_from ys x (k + 1) - k) = Suc (nat (indexOf_from ys x (k + 1) - (k + 1)))"
      by linarith
    with Cons.IH [OF in_ys, of "k + 1"] Cons.prems False show ?thesis by simp
  qed
qed

lemma splice_present: "x \<in> set xs \<Longrightarrow> splice (indexOf xs x) 1 xs = remove1 x xs"
proof -
  assume x: "x \<in> set xs"
  from indexOf_from_present [OF x, of 0]
  have b: "0 \<le> indexOf xs x" "indexOf xs x < int (length xs)" by (simp_all add: indexOf_def)
  from indexOf_from_take_drop [OF x, of 0]
  have "take (nat (indexOf xs x)) xs @ drop (Suc (nat (indexOf xs x))) xs = remove1 x xs"
    by (simp add: indexOf_def)
  moreover from b have "nat (indexOf xs x + 1) = Suc (nat (indexOf xs x))" by simp
  ultimately show ?thesis using b by (simp add: splice_def Let_def min_def)
qed

text \<open>
  \<open>removeChildAborter\<close> removes the first occurrence of a child that is there, and
  the last child, whichever it is, when the given scope is not there.
\<close>

lemma children_removeChildAborter:
  "children (heap (removeChildAborter this child w) this) =
     (if child \<in> set (children (heap w this)) then remove1 child (children (heap w this))
      else butlast (children (heap w this)))"
  by (simp add: removeChildAborter_def splice_present splice_absent)

text \<open>
  C2. The claim: removing a scope that was never added does not throw and leaves
  \<open>children\<close> as it was. The code: scope 0 has the one child 1; scope 2 was never
  added; \<open>removeChildAborter(2)\<close> leaves scope 0 without children, because
  \<open>indexOf\<close> answers \<open>-1\<close> and \<open>splice(-1, 1)\<close> removes the last element.
\<close>

theorem removeChildAborter_absent_removes_last:
  "children (heap (addChildAborter 0 1 empty_world) 0) = [1]
   \<and> children (heap (removeChildAborter 0 2 (addChildAborter 0 1 empty_world)) 0) = []"
  by (simp add: removeChildAborter_def addChildAborter_def empty_world_def
      new_MagicAborter_def splice_def indexOf_def)

section \<open>The order of a pass\<close>

text \<open>
  C3. A scope without children on which \<open>a\<close>, \<open>b\<close>, \<open>c\<close> are collected in that order,
  with any listeners of both kinds, these callbacks being quiet: \<open>abort()\<close> returns, and
  what it did is, in order, the \<open>abort\<close> event and its listeners, the \<open>abort()\<close> of
  \<open>a\<close>, of \<open>b\<close> and of \<open>c\<close>, once each (no child to abort), then the \<open>aborted\<close> event and its
  listeners; \<open>collections\<close> is empty afterwards.
\<close>

theorem abort_order:
  assumes "\<forall>l \<in> set (emitter (heap w r) EvAbort) \<union> set (emitter (heap w r) EvAborted).
             listener P l = []"
    and "abort_of P a = [] \<and> abort_of P b = [] \<and> abort_of P c = []"
    and "children (heap w r) = []" and "collections (heap w r) = []"
    and "distinct [a, b, c]"
  shows "\<exists>w'. (\<forall>n \<ge> 5. exec P n (AbortCall r) (collect r c (collect r b (collect r a w)))
                  = Some (Returned, w'))
     \<and> trace w' = trace w
          @ [Emit r EvAbort] @ map (Handler r EvAbort) (emitter (heap w r) EvAbort)
          @ [OpAbort r a, OpAbort r b, OpAbort r c]
          @ [Emit r EvAborted] @ map (Handler r EvAborted) (emitter (heap w r) EvAborted)
     \<and> collections (heap w' r) = []"
proof -
  let ?w3 = "collect r c (collect r b (collect r a w))"
  let ?w' = "logs (pass_trace ?w3 r []) (upd r (\<lambda>s. s\<lparr>collections := [], priv_aborted := True\<rparr>) ?w3)"
  have col: "collections (heap ?w3 r) = [a, b, c]"
    using assms(4,5) by (simp add: collections_collect)
  have chi: "children (heap ?w3 r) = []"
    using assms(3) by (simp add: children_collect)
  have emi: "emitter (heap ?w3 r) = emitter (heap w r)"
    by (simp add: emitter_collect)
  have tra: "trace ?w3 = trace w"
    by (simp add: trace_collect)
  have "\<not> priv_aborted (heap ?w3 r)" by (rule priv_aborted_collect)
  then have g: "get_aborted (Suc (Suc (Suc (Suc 0)))) (heap ?w3) r = Some False" by simp
  have five: "5 = Suc (Suc (Suc (Suc (Suc 0))))" by simp
  have "exec P (Suc (Suc (Suc (Suc (Suc 0))))) (AbortCall r) ?w3 = Some (Returned, ?w')"
    using _ _ _ g by (rule abort_quiet_flat) (use assms(1,2) in \<open>simp_all add: col chi emi\<close>)
  then have "exec P 5 (AbortCall r) ?w3 = Some (Returned, ?w')"
    by (simp only: five)
  then have "\<forall>n \<ge> 5. exec P n (AbortCall r) ?w3 = Some (Returned, ?w')"
    by (blast intro: exec_mono)
  moreover have "trace ?w' = trace w
          @ [Emit r EvAbort] @ map (Handler r EvAbort) (emitter (heap w r) EvAbort)
          @ [OpAbort r a, OpAbort r b, OpAbort r c]
          @ [Emit r EvAborted] @ map (Handler r EvAborted) (emitter (heap w r) EvAborted)"
    by (simp add: pass_trace_def col emi tra)
  moreover have "collections (heap ?w' r) = []" by simp
  ultimately show ?thesis by blast
qed

theorem abort_order_witness:
  "\<exists>w'. exec quiet_program 5 (AbortCall 0) (collect 0 3 (collect 0 2 (collect 0 1 listening_world)))
          = Some (Returned, w')
     \<and> trace w' = [Emit 0 EvAbort, Handler 0 EvAbort 5, OpAbort 0 1, OpAbort 0 2, OpAbort 0 3,
                   Emit 0 EvAborted, Handler 0 EvAborted 6]
     \<and> collections (heap w' 0) = []"
proof -
  have "\<forall>l \<in> set (emitter (heap listening_world 0) EvAbort)
             \<union> set (emitter (heap listening_world 0) EvAborted). listener quiet_program l = []"
    "abort_of quiet_program 1 = [] \<and> abort_of quiet_program 2 = [] \<and> abort_of quiet_program 3 = []"
    "children (heap listening_world 0) = []" "collections (heap listening_world 0) = []"
    "distinct [1, 2, 3 :: nat]"
    by (simp_all add: listening_world_0 quiet_program_def)
  from abort_order [OF this] obtain w' where
    all: "\<forall>n \<ge> 5. exec quiet_program n (AbortCall 0)
        (collect 0 3 (collect 0 2 (collect 0 1 listening_world))) = Some (Returned, w')"
    and tr: "trace w' = trace listening_world
          @ [Emit 0 EvAbort] @ map (Handler 0 EvAbort) (emitter (heap listening_world 0) EvAbort)
          @ [OpAbort 0 1, OpAbort 0 2, OpAbort 0 3]
          @ [Emit 0 EvAborted] @ map (Handler 0 EvAborted) (emitter (heap listening_world 0) EvAborted)"
    and col: "collections (heap w' 0) = []"
    by blast
  from all have "exec quiet_program 5 (AbortCall 0)
        (collect 0 3 (collect 0 2 (collect 0 1 listening_world))) = Some (Returned, w')"
    by simp
  moreover from tr have "trace w' = [Emit 0 EvAbort, Handler 0 EvAbort 5, OpAbort 0 1, OpAbort 0 2,
      OpAbort 0 3, Emit 0 EvAborted, Handler 0 EvAborted 6]"
    by (simp add: listening_world_0)
  ultimately show ?thesis using col by blast
qed

section \<open>Aborting twice\<close>

text \<open>
  C4. Whatever the callbacks, \<open>abort()\<close> on a scope whose getter \<open>aborted\<close> answers
  true returns at once and changes nothing. With quiet callbacks on a well-founded heap,
  \<open>abort()\<close> called twice in a row returns both times and leaves the state the first
  call left: the second call changes nothing and logs nothing, and the getter is true.
  When the scope did not report canceled before, \<open>collections\<close> is empty and the two
  calls together have emitted \<open>abort\<close> once and \<open>aborted\<close> once.
\<close>

theorem abort_twice:
  assumes "quiet P" and "ranked (heap w) rk"
  shows "(get_aborted d (heap v) r = Some True \<longrightarrow>
            exec Q (Suc d) (AbortCall r) v = Some (Returned, v))
      \<and> (\<exists>n w' t. exec P n (AbortCall r) w = Some (Returned, w')
      \<and> exec P n (AbortCall r) w' = Some (Returned, w')
      \<and> run_seq (exec P n) [AbortCall r, AbortCall r] w = Some (Returned, w')
      \<and> (\<exists>m. get_aborted m (heap w') r = Some True)
      \<and> trace w' = trace w @ t
      \<and> (get_aborted k (heap w) r = Some False \<longrightarrow>
            collections (heap w' r) = []
          \<and> count_list t (Emit r EvAbort) = 1 \<and> count_list t (Emit r EvAborted) = 1))"
proof -
  have guard: "get_aborted d (heap v) r = Some True \<longrightarrow>
            exec Q (Suc d) (AbortCall r) v = Some (Returned, v)"
    by (simp add: abort_canceled)
  from abort_quiet [OF assms, of r] obtain n1 w' t where
    ex1: "exec P n1 (AbortCall r) w = Some (Returned, w')"
    and can: "canceled (heap w') r"
    and tr: "trace w' = trace w @ t"
    and fresh: "\<not> canceled (heap w) r \<longrightarrow> collections (heap w' r) = []
          \<and> (\<exists>tc. t = pass_trace w r tc \<and> (\<forall>e \<in> set tc. rk (obs_ref e) < rk r))"
    by blast
  from can obtain m where m: "get_aborted m (heap w') r = Some True"
    by (auto simp: canceled_def)
  then have ex2: "exec P (Suc m) (AbortCall r) w' = Some (Returned, w')"
    by (simp add: abort_canceled)
  let ?n = "max n1 (Suc m)"
  have a: "exec P ?n (AbortCall r) w = Some (Returned, w')"
    using ex1 by (rule exec_mono [rotated]) simp
  have b: "exec P ?n (AbortCall r) w' = Some (Returned, w')"
    using ex2 by (rule exec_mono [rotated]) simp
  from a b have c: "run_seq (exec P ?n) [AbortCall r, AbortCall r] w = Some (Returned, w')"
    by simp
  have "collections (heap w' r) = []
          \<and> count_list t (Emit r EvAbort) = 1 \<and> count_list t (Emit r EvAborted) = 1"
    if "get_aborted k (heap w) r = Some False"
  proof -
    from that have "\<not> canceled (heap w) r" by (rule not_canceled_if_False)
    with fresh obtain tc where "collections (heap w' r) = []" "t = pass_trace w r tc"
      and low: "\<forall>e \<in> set tc. rk (obs_ref e) < rk r" by blast
    with count_pass_trace_Emit [OF low, of w] show ?thesis by simp
  qed
  with a b c m tr have "\<exists>n w' t. exec P n (AbortCall r) w = Some (Returned, w')
      \<and> exec P n (AbortCall r) w' = Some (Returned, w')
      \<and> run_seq (exec P n) [AbortCall r, AbortCall r] w = Some (Returned, w')
      \<and> (\<exists>m. get_aborted m (heap w') r = Some True)
      \<and> trace w' = trace w @ t
      \<and> (get_aborted k (heap w) r = Some False \<longrightarrow>
            collections (heap w' r) = []
          \<and> count_list t (Emit r EvAbort) = 1 \<and> count_list t (Emit r EvAborted) = 1)"
    by blast
  with guard show ?thesis ..
qed

theorem abort_twice_witness:
  "exec rearming_program 3 (AbortCall 0) canceled_world = Some (Returned, canceled_world)
   \<and> (\<exists>n w' t. exec quiet_program n (AbortCall 0) family_world = Some (Returned, w')
      \<and> exec quiet_program n (AbortCall 0) w' = Some (Returned, w')
      \<and> run_seq (exec quiet_program n) [AbortCall 0, AbortCall 0] family_world = Some (Returned, w')
      \<and> (\<exists>m. get_aborted m (heap w') 0 = Some True)
      \<and> trace w' = trace family_world @ t
      \<and> collections (heap w' 0) = []
      \<and> count_list t (Emit 0 EvAbort) = 1 \<and> count_list t (Emit 0 EvAborted) = 1)"
proof -
  have f: "get_aborted 1 (heap family_world) 0 = Some False"
    by (simp add: family_world_def)
  have c: "get_aborted 2 (heap canceled_world) 0 = Some True"
    by (simp add: canceled_world_def eval_nat_numeral)
  note T = abort_twice [OF quiet_quiet_program ranked_family_world, where r = 0 and k = 1
      and d = 2 and v = canceled_world and Q = rearming_program]
  from T c have "exec rearming_program 3 (AbortCall 0) canceled_world
      = Some (Returned, canceled_world)"
    by (simp add: numeral_3_eq_3 del: exec.simps get_aborted.simps)
  moreover from T f have "\<exists>n w' t. exec quiet_program n (AbortCall 0) family_world = Some (Returned, w')
      \<and> exec quiet_program n (AbortCall 0) w' = Some (Returned, w')
      \<and> run_seq (exec quiet_program n) [AbortCall 0, AbortCall 0] family_world = Some (Returned, w')
      \<and> (\<exists>m. get_aborted m (heap w') 0 = Some True)
      \<and> trace w' = trace family_world @ t
      \<and> collections (heap w' 0) = []
      \<and> count_list t (Emit 0 EvAbort) = 1 \<and> count_list t (Emit 0 EvAborted) = 1"
    by (simp del: exec.simps get_aborted.simps run_seq.simps)
  ultimately show ?thesis ..
qed

section \<open>Registering on a canceled scope\<close>

text \<open>
  C5. On a scope whose getter \<open>aborted\<close> answers true, after \<open>collect(a)\<close> the getter
  answers false; when the listeners of the scope, \<open>a\<close> and the objects already
  collected are quiet, the next \<open>abort()\<close> returns, calls the \<open>abort()\<close> of \<open>a\<close>, and
  the getter answers true again.
\<close>

theorem collect_rearms:
  assumes "get_aborted k (heap w) r = Some True"
    and "\<forall>l \<in> set (emitter (heap w r) EvAbort) \<union> set (emitter (heap w r) EvAborted).
           listener P l = []"
    and "\<forall>x \<in> set (collections (heap w r)). abort_of P x = []" and "abort_of P a = []"
  shows "get_aborted (Suc j) (heap (collect r a w)) r = Some False
     \<and> (\<exists>n w' t. exec P n (AbortCall r) (collect r a w) = Some (Returned, w')
           \<and> trace w' = trace w @ t \<and> OpAbort r a \<in> set t
           \<and> (\<exists>m. get_aborted m (heap w') r = Some True))"
proof -
  let ?w1 = "collect r a w"
  let ?h2 = "(heap ?w1)(r := (heap ?w1 r)\<lparr>collections := []\<rparr>)"
  let ?w' = "logs (pass_trace ?w1 r []) (upd r (\<lambda>s. s\<lparr>collections := [], priv_aborted := True\<rparr>) ?w1)"
  have nf: "\<not> priv_aborted (heap ?w1 r)" by (rule priv_aborted_collect)
  have chi: "children (heap ?w1 r) = children (heap w r)" by (rule children_collect)
  have "\<forall>y. y \<noteq> r \<longrightarrow> ?h2 y = heap w y" by (simp add: heap_collect_other)
  with assms(1) obtain n0 where
    n0: "\<forall>c \<in> set (children (heap w r)). get_aborted n0 ?h2 c = Some True"
    using canceled_children_frame by blast
  let ?n = "max n0 (length (collections (heap ?w1 r)))"
  have ch: "\<forall>c \<in> set (children (heap ?w1 r)). get_aborted ?n ?h2 c = Some True"
  proof
    fix c assume "c \<in> set (children (heap ?w1 r))"
    with chi n0 have "get_aborted n0 ?h2 c = Some True" by simp
    then show "get_aborted ?n ?h2 c = Some True"
      by (rule get_aborted_mono [rotated]) simp
  qed
  from nf have g: "get_aborted (Suc ?n) (heap ?w1) r = Some False" by simp
  have len: "length (collections (heap ?w1 r)) \<le> ?n" by simp
  have q: "\<forall>l \<in> set (emitter (heap ?w1 r) EvAbort). listener P l = []"
    "\<forall>l \<in> set (emitter (heap ?w1 r) EvAborted). listener P l = []"
    "\<forall>x \<in> set (collections (heap ?w1 r)). abort_of P x = []"
    using assms(2,3,4) by (simp_all add: emitter_collect collections_collect)
  have ex: "exec P (Suc (Suc ?n)) (AbortCall r) ?w1 = Some (Returned, ?w')"
    using q g len ch by (rule abort_quiet_flat)
  have tr: "trace ?w' = trace w @ pass_trace ?w1 r []"
    by (simp add: trace_collect)
  have "a \<in> set (collections (heap ?w1 r))"
    by (simp add: collections_collect)
  then have inv: "OpAbort r a \<in> set (pass_trace ?w1 r [])"
    by (simp add: pass_trace_def)
  have "\<forall>y. y \<noteq> r \<longrightarrow> heap ?w' y = heap w y" by (simp add: heap_collect_other)
  with assms(1) obtain n1 where
    "\<forall>c \<in> set (children (heap w r)). get_aborted n1 (heap ?w') c = Some True"
    using canceled_children_frame by blast
  moreover have "children (heap ?w' r) = children (heap w r)"
    by (simp add: children_collect)
  moreover have "priv_aborted (heap ?w' r)" by simp
  ultimately have "get_aborted (Suc n1) (heap ?w') r = Some True"
    unfolding get_aborted_True_Suc by simp
  then have "\<exists>m. get_aborted m (heap ?w') r = Some True" ..
  with ex tr inv have "\<exists>n w' t. exec P n (AbortCall r) ?w1 = Some (Returned, w')
           \<and> trace w' = trace w @ t \<and> OpAbort r a \<in> set t
           \<and> (\<exists>m. get_aborted m (heap w') r = Some True)" by blast
  moreover from nf have "get_aborted (Suc j) (heap ?w1) r = Some False" by simp
  ultimately show ?thesis by blast
qed

theorem collect_rearms_witness:
  "get_aborted 2 (heap canceled_world) 0 = Some True
   \<and> get_aborted 2 (heap (collect 0 3 canceled_world)) 0 = Some False
   \<and> (\<exists>n w' t. exec quiet_program n (AbortCall 0) (collect 0 3 canceled_world) = Some (Returned, w')
         \<and> trace w' = trace canceled_world @ t \<and> OpAbort 0 3 \<in> set t
         \<and> (\<exists>m. get_aborted m (heap w') 0 = Some True))"
proof -
  have c: "get_aborted 2 (heap canceled_world) 0 = Some True"
    by (simp add: canceled_world_def eval_nat_numeral)
  have "\<forall>l \<in> set (emitter (heap canceled_world 0) EvAbort)
             \<union> set (emitter (heap canceled_world 0) EvAborted). listener quiet_program l = []"
    "\<forall>x \<in> set (collections (heap canceled_world 0)). abort_of quiet_program x = []"
    "abort_of quiet_program 3 = []"
    by (simp_all add: quiet_program_def)
  from collect_rearms [OF c this, of 1] c show ?thesis
    by (simp add: eval_nat_numeral del: get_aborted.simps)
qed

section \<open>The getter over the children\<close>

text \<open>
  C6. The getter \<open>aborted\<close>, whenever it answers, answers the flag of the scope
  conjoined with the answers of all children; it is never true with the flag unset; a
  parent whose flag is set and whose children report canceled except one reports
  false; and once that child is aborted (quiet callbacks, well-founded heap) the parent
  reports true. On a well-founded heap the getter does answer.
\<close>

theorem aborted_is_flag_and_children:
  "(get_aborted (Suc n) (heap w) p = Some b \<longrightarrow>
      b = (priv_aborted (heap w p)
           \<and> (\<forall>c \<in> set (children (heap w p)). get_aborted n (heap w) c = Some True)))
   \<and> (get_aborted m (heap w) q = Some True \<longrightarrow> priv_aborted (heap w q))
   \<and> (priv_aborted (heap w p) \<and> c2 \<in> set (children (heap w p))
        \<and> get_aborted n (heap w) c2 = Some False
        \<and> (\<forall>c \<in> set (children (heap w p)). c \<noteq> c2 \<longrightarrow> get_aborted n (heap w) c = Some True)
      \<longrightarrow> get_aborted (Suc n) (heap w) p = Some False
        \<and> (quiet P \<and> ranked (heap w) rk \<longrightarrow>
             (\<exists>i w'. exec P i (AbortCall c2) w = Some (Returned, w')
                \<and> (\<exists>j. get_aborted j (heap w') p = Some True))))
   \<and> (ranked (heap w) rk \<longrightarrow> (\<exists>a. get_aborted (Suc (rk p)) (heap w) p = Some a))"
proof (intro conjI impI)
  assume "get_aborted (Suc n) (heap w) p = Some b"
  then show "b = (priv_aborted (heap w p)
           \<and> (\<forall>c \<in> set (children (heap w p)). get_aborted n (heap w) c = Some True))"
    by (auto dest: every_Some_eq split: if_splits)
next
  assume "get_aborted m (heap w) q = Some True"
  then have "canceled (heap w) q" unfolding canceled_def ..
  then show "priv_aborted (heap w q)" by (subst (asm) canceled_iff) simp
next
  assume a: "priv_aborted (heap w p) \<and> c2 \<in> set (children (heap w p))
        \<and> get_aborted n (heap w) c2 = Some False
        \<and> (\<forall>c \<in> set (children (heap w p)). c \<noteq> c2 \<longrightarrow> get_aborted n (heap w) c = Some True)"
  then have "\<forall>y \<in> set (children (heap w p)). get_aborted n (heap w) y \<noteq> None"
    by (metis option.distinct(1))
  with a have "every (get_aborted n (heap w)) (children (heap w p)) = Some False"
    by (blast intro: every_False)
  with a show "get_aborted (Suc n) (heap w) p = Some False" by simp
next
  assume a: "priv_aborted (heap w p) \<and> c2 \<in> set (children (heap w p))
        \<and> get_aborted n (heap w) c2 = Some False
        \<and> (\<forall>c \<in> set (children (heap w p)). c \<noteq> c2 \<longrightarrow> get_aborted n (heap w) c = Some True)"
    and qr: "quiet P \<and> ranked (heap w) rk"
  from qr abort_quiet [of P w rk c2] obtain i w' where
    ex: "exec P i (AbortCall c2) w = Some (Returned, w')"
    and st: "stable w w'" and can: "canceled (heap w') c2"
    by blast
  have "\<forall>c \<in> set (children (heap w' p)). canceled (heap w') c"
  proof
    fix c assume "c \<in> set (children (heap w' p))"
    with st have c: "c \<in> set (children (heap w p))" by (simp add: stable_children)
    show "canceled (heap w') c"
    proof (cases "c = c2")
      case True
      with can show ?thesis by simp
    next
      case False
      with a c have "canceled (heap w) c" unfolding canceled_def by blast
      with st show ?thesis by (rule stable_canceled)
    qed
  qed
  moreover from a st have "priv_aborted (heap w' p)" by (simp add: stable_def)
  ultimately have "canceled (heap w') p" by (subst canceled_iff) simp
  then have "\<exists>j. get_aborted j (heap w') p = Some True" by (simp add: canceled_def)
  with ex show "\<exists>i w'. exec P i (AbortCall c2) w = Some (Returned, w')
                \<and> (\<exists>j. get_aborted j (heap w') p = Some True)" by blast
next
  assume "ranked (heap w) rk"
  then show "\<exists>a. get_aborted (Suc (rk p)) (heap w) p = Some a"
    by (rule get_aborted_total) simp
qed

theorem aborted_is_flag_and_children_witness:
  "get_aborted 1 (heap half_canceled_world) 1 = Some True
   \<and> priv_aborted (heap half_canceled_world 1)
   \<and> get_aborted 1 (heap half_canceled_world) 2 = Some False
   \<and> priv_aborted (heap half_canceled_world 0)
   \<and> get_aborted 2 (heap half_canceled_world) 0 = Some False
   \<and> (\<exists>i w'. exec quiet_program i (AbortCall 2) half_canceled_world = Some (Returned, w')
         \<and> (\<exists>j. get_aborted j (heap w') 0 = Some True))"
proof -
  have r: "ranked (heap half_canceled_world) family_rank"
    by (simp add: ranked_def half_canceled_world_def family_rank_def new_MagicAborter_def)
  have pre: "priv_aborted (heap half_canceled_world 0)
      \<and> 2 \<in> set (children (heap half_canceled_world 0))
      \<and> get_aborted 1 (heap half_canceled_world) 2 = Some False
      \<and> (\<forall>c \<in> set (children (heap half_canceled_world 0)). c \<noteq> 2 \<longrightarrow>
            get_aborted 1 (heap half_canceled_world) c = Some True)"
    by (simp add: half_canceled_world_def)
  have one: "get_aborted 1 (heap half_canceled_world) 1 = Some True"
    by (simp add: half_canceled_world_def)
  from aborted_is_flag_and_children
    [of 1 half_canceled_world 0 False 1 1 2 quiet_program family_rank]
    pre one r quiet_quiet_program
  show ?thesis by (simp add: eval_nat_numeral del: get_aborted.simps)
qed

section \<open>A callback that throws\<close>

lemma handlers_raise:
  assumes "\<forall>x \<in> set pre. listener P x = []"
  shows "run_seq run (listener P l) (logs (map H (pre @ [l])) v) = Some (Thrown, v') \<Longrightarrow>
     run_seq (\<lambda>l w'. run_seq run (listener P l) (log (H l) w')) (pre @ l # post) v
       = Some (Thrown, v')"
  using assms
proof (induction pre arbitrary: v)
  case Nil
  then show ?case by (simp add: logs_def log_def)
next
  case (Cons x pre)
  from Cons.prems(1) have
    "run_seq run (listener P l) (logs (map H (pre @ [l])) (log (H x) v)) = Some (Thrown, v')"
    by (simp add: logs_log)
  moreover from Cons.prems(2) have "\<forall>x \<in> set pre. listener P x = []" by simp
  ultimately have
    "run_seq (\<lambda>l w'. run_seq run (listener P l) (log (H l) w')) (pre @ l # post) (log (H x) v)
       = Some (Thrown, v')"
    by (rule Cons.IH)
  with Cons.prems(2) show ?case by simp
qed

lemma emit_raise:
  assumes "emitter (heap w r) ev = pre @ l # post"
    and "\<forall>x \<in> set pre. listener P x = []"
    and "run_seq run (listener P l) (logs (Emit r ev # map (Handler r ev) (pre @ [l])) w)
           = Some (Thrown, v')"
  shows "emit (\<lambda>l. run_seq run (listener P l)) r ev w = Some (Thrown, v')"
proof -
  from assms(3) have
    "run_seq run (listener P l) (logs (map (Handler r ev) (pre @ [l])) (log (Emit r ev) w))
       = Some (Thrown, v')"
    by (simp add: logs_log)
  with assms(2) have
    "run_seq (\<lambda>l w'. run_seq run (listener P l) (log (Handler r ev l) w'))
           (pre @ l # post) (log (Emit r ev) w) = Some (Thrown, v')"
    by (rule handlers_raise)
  with assms(1) show ?thesis by (simp add: emit_def)
qed

lemma drain_raise:
  assumes "\<forall>x \<in> set pre. abort_of P x = []"
  shows "collections (heap w r) = pre @ a # post \<Longrightarrow> length pre < n \<Longrightarrow>
     run_seq run (abort_of P a)
       (logs (map (OpAbort r) (pre @ [a])) (upd r (\<lambda>s. s\<lparr>collections := post\<rparr>) w))
       = Some (Thrown, v') \<Longrightarrow>
     drain (\<lambda>a. run_seq run (abort_of P a)) n r w = Some (Thrown, v')"
  using assms
proof (induction pre arbitrary: n w)
  case Nil
  then obtain m where "n = Suc m" by (cases n) auto
  with Nil show ?case by (simp add: logs_def log_def)
next
  case (Cons x pre)
  then obtain m where n: "n = Suc m" and m: "length pre < m" by (cases n) auto
  let ?w1 = "log (OpAbort r x) (upd r (\<lambda>s. s\<lparr>collections := pre @ a # post\<rparr>) w)"
  have c: "collections (heap ?w1 r) = pre @ a # post" by simp
  have eq: "logs (map (OpAbort r) (pre @ [a])) (upd r (\<lambda>s. s\<lparr>collections := post\<rparr>) ?w1)
      = logs (map (OpAbort r) ((x # pre) @ [a])) (upd r (\<lambda>s. s\<lparr>collections := post\<rparr>) w)"
    by (simp add: logs_def log_def upd_def)
  from Cons.prems(3) have
    "run_seq run (abort_of P a)
       (logs (map (OpAbort r) (pre @ [a])) (upd r (\<lambda>s. s\<lparr>collections := post\<rparr>) ?w1))
       = Some (Thrown, v')" by (simp only: eq)
  moreover from Cons.prems(4) have "\<forall>x \<in> set pre. abort_of P x = []" by simp
  ultimately have "drain (\<lambda>a. run_seq run (abort_of P a)) m r ?w1 = Some (Thrown, v')"
    using c m by (blast intro: Cons.IH)
  with Cons.prems n show ?case by simp
qed

lemma run_seq_Throw: "run_seq (exec P (Suc n)) (Throw # body) v = Some (Thrown, v)"
  by simp

text \<open>
  C7, as amended. On a scope that does not report canceled, an exception raised by an
  \<open>abort\<close> listener, or by the \<open>abort()\<close> of a collected object, comes out of \<open>abort()\<close>,
  the callbacks called before it being quiet, and nothing of the pass runs after it:
  \<open>abort()\<close> ends in exactly the state \<open>v\<close> in which the callback raised. The first two
  parts say this for any callback that raises, the state in which it is called being
  written out. The last two parts are the case of a callback that raises before it
  calls anything on a scope (its code starts with \<open>throw\<close>). When it is a listener, the
  heap is what it was: no object aborted, no child touched, the flag as before. When
  it is an object, the objects after it are still in \<open>collections\<close> and were not
  aborted, no child was touched and the flag is as before. In both cases \<open>aborted\<close> is
  not emitted.
\<close>

theorem abort_exception_propagates:
  assumes "get_aborted (Suc n) (heap w) r = Some False"
  shows
    "(emitter (heap w r) EvAbort = pre @ l # post \<and> (\<forall>x \<in> set pre. listener P x = [])
        \<and> run_seq (exec P (Suc n)) (listener P l)
             (logs (Emit r EvAbort # map (Handler r EvAbort) (pre @ [l])) w) = Some (Thrown, v)
      \<longrightarrow> exec P (Suc (Suc n)) (AbortCall r) w = Some (Thrown, v))
   \<and> ((\<forall>x \<in> set (emitter (heap w r) EvAbort). listener P x = [])
        \<and> collections (heap w r) = cpre @ a # cpost \<and> (\<forall>x \<in> set cpre. abort_of P x = [])
        \<and> length cpre \<le> n
        \<and> run_seq (exec P (Suc n)) (abort_of P a)
             (logs (Emit r EvAbort # map (Handler r EvAbort) (emitter (heap w r) EvAbort)
                      @ map (OpAbort r) (cpre @ [a]))
                (upd r (\<lambda>s. s\<lparr>collections := cpost\<rparr>) w)) = Some (Thrown, v)
      \<longrightarrow> exec P (Suc (Suc n)) (AbortCall r) w = Some (Thrown, v))
   \<and> (emitter (heap w r) EvAbort = pre @ l # post \<and> (\<forall>x \<in> set pre. listener P x = [])
        \<and> listener P l = Throw # body
      \<longrightarrow> (\<exists>w' t. exec P (Suc (Suc n)) (AbortCall r) w = Some (Thrown, w')
            \<and> heap w' = heap w \<and> trace w' = trace w @ t
            \<and> t = Emit r EvAbort # map (Handler r EvAbort) (pre @ [l])))
   \<and> ((\<forall>x \<in> set (emitter (heap w r) EvAbort). listener P x = [])
        \<and> collections (heap w r) = cpre @ a # cpost \<and> (\<forall>x \<in> set cpre. abort_of P x = [])
        \<and> abort_of P a = Throw # body \<and> length cpre \<le> n
      \<longrightarrow> (\<exists>w' t. exec P (Suc (Suc n)) (AbortCall r) w = Some (Thrown, w')
            \<and> heap w' = (heap w)(r := (heap w r)\<lparr>collections := cpost\<rparr>)
            \<and> priv_aborted (heap w' r) = priv_aborted (heap w r)
            \<and> trace w' = trace w @ t
            \<and> t = Emit r EvAbort # map (Handler r EvAbort) (emitter (heap w r) EvAbort)
                    @ map (OpAbort r) (cpre @ [a])
            \<and> Emit r EvAborted \<notin> set t))"
proof -
  have A: "exec P (Suc (Suc n)) (AbortCall r) w = Some (Thrown, u)"
    if "emitter (heap w r) EvAbort = pre @ l # post" "\<forall>x \<in> set pre. listener P x = []"
      "run_seq (exec P (Suc n)) (listener P l)
             (logs (Emit r EvAbort # map (Handler r EvAbort) (pre @ [l])) w) = Some (Thrown, u)"
    for u
  proof -
    from that have "emit (\<lambda>l. run_seq (exec P (Suc n)) (listener P l)) r EvAbort w
        = Some (Thrown, u)"
      by (rule emit_raise)
    then have "abort P (exec P (Suc n)) (Suc n) r w = Some (Thrown, u)"
      by (simp only: abort_not_canceled [OF assms] then_do_Thrown)
    then show ?thesis by simp
  qed
  have B: "exec P (Suc (Suc n)) (AbortCall r) w = Some (Thrown, u)"
    if q: "\<forall>x \<in> set (emitter (heap w r) EvAbort). listener P x = []"
      and c: "collections (heap w r) = cpre @ a # cpost" "\<forall>x \<in> set cpre. abort_of P x = []"
        "length cpre \<le> n"
      and t: "run_seq (exec P (Suc n)) (abort_of P a)
             (logs (Emit r EvAbort # map (Handler r EvAbort) (emitter (heap w r) EvAbort)
                      @ map (OpAbort r) (cpre @ [a]))
                (upd r (\<lambda>s. s\<lparr>collections := cpost\<rparr>) w)) = Some (Thrown, u)"
    for u
  proof -
    let ?t1 = "Emit r EvAbort # map (Handler r EvAbort) (emitter (heap w r) EvAbort)"
    let ?w1 = "logs ?t1 w"
    from q have e: "emit (\<lambda>l. run_seq (exec P (Suc n)) (listener P l)) r EvAbort w =
         Some (Returned, ?w1)"
      by (rule emit_quiet_local)
    have eq: "logs (map (OpAbort r) (cpre @ [a])) (upd r (\<lambda>s. s\<lparr>collections := cpost\<rparr>) ?w1)
        = logs (Emit r EvAbort # map (Handler r EvAbort) (emitter (heap w r) EvAbort)
                  @ map (OpAbort r) (cpre @ [a]))
            (upd r (\<lambda>s. s\<lparr>collections := cpost\<rparr>) w)"
      by (simp add: logs_def upd_def)
    from t have "run_seq (exec P (Suc n)) (abort_of P a)
        (logs (map (OpAbort r) (cpre @ [a])) (upd r (\<lambda>s. s\<lparr>collections := cpost\<rparr>) ?w1))
        = Some (Thrown, u)" by (simp only: eq)
    moreover from c have "collections (heap ?w1 r) = cpre @ a # cpost" "length cpre < Suc n"
      by simp_all
    ultimately have d: "drain (\<lambda>a. run_seq (exec P (Suc n)) (abort_of P a)) (Suc n) r ?w1 =
       Some (Thrown, u)"
      using c(2) by (blast intro: drain_raise)
    have "abort P (exec P (Suc n)) (Suc n) r w = Some (Thrown, u)"
      by (simp only: abort_not_canceled [OF assms] e d then_do_Returned then_do_Thrown)
    then show ?thesis by simp
  qed
  have C: "\<exists>w' t. exec P (Suc (Suc n)) (AbortCall r) w = Some (Thrown, w')
            \<and> heap w' = heap w \<and> trace w' = trace w @ t
            \<and> t = Emit r EvAbort # map (Handler r EvAbort) (pre @ [l])"
    if "emitter (heap w r) EvAbort = pre @ l # post" "\<forall>x \<in> set pre. listener P x = []"
      "listener P l = Throw # body"
  proof -
    let ?v = "logs (Emit r EvAbort # map (Handler r EvAbort) (pre @ [l])) w"
    from that(3) have "run_seq (exec P (Suc n)) (listener P l) ?v = Some (Thrown, ?v)"
      by (simp only: run_seq_Throw)
    with that(1,2) have "exec P (Suc (Suc n)) (AbortCall r) w = Some (Thrown, ?v)"
      by (rule A)
    moreover have "heap ?v = heap w"
      "trace ?v = trace w @ Emit r EvAbort # map (Handler r EvAbort) (pre @ [l])"
      by simp_all
    ultimately show ?thesis by blast
  qed
  have D: "\<exists>w' t. exec P (Suc (Suc n)) (AbortCall r) w = Some (Thrown, w')
            \<and> heap w' = (heap w)(r := (heap w r)\<lparr>collections := cpost\<rparr>)
            \<and> priv_aborted (heap w' r) = priv_aborted (heap w r)
            \<and> trace w' = trace w @ t
            \<and> t = Emit r EvAbort # map (Handler r EvAbort) (emitter (heap w r) EvAbort)
                    @ map (OpAbort r) (cpre @ [a])
            \<and> Emit r EvAborted \<notin> set t"
    if q: "\<forall>x \<in> set (emitter (heap w r) EvAbort). listener P x = []"
      and c: "collections (heap w r) = cpre @ a # cpost" "\<forall>x \<in> set cpre. abort_of P x = []"
        "length cpre \<le> n"
      and t: "abort_of P a = Throw # body"
  proof -
    let ?t = "Emit r EvAbort # map (Handler r EvAbort) (emitter (heap w r) EvAbort)
                    @ map (OpAbort r) (cpre @ [a])"
    let ?v = "logs ?t (upd r (\<lambda>s. s\<lparr>collections := cpost\<rparr>) w)"
    from t have "run_seq (exec P (Suc n)) (abort_of P a) ?v = Some (Thrown, ?v)"
      by (simp only: run_seq_Throw)
    with q c have "exec P (Suc (Suc n)) (AbortCall r) w = Some (Thrown, ?v)"
      by (rule B)
    moreover have "heap ?v = (heap w)(r := (heap w r)\<lparr>collections := cpost\<rparr>)" by simp
    moreover have "priv_aborted (heap ?v r) = priv_aborted (heap w r)" by simp
    moreover have "trace ?v = trace w @ ?t" by simp
    moreover have "Emit r EvAborted \<notin> set ?t" by auto
    ultimately show ?thesis by blast
  qed
  from A B C D show ?thesis by blast
qed

theorem abort_exception_propagates_witness:
  "exec late_failing_program 3 (AbortCall 0) family_world
     = Some (Thrown, collect 0 9 (logs [Emit 0 EvAbort, Handler 0 EvAbort 5] family_world))
   \<and> exec object_failing_program 3 (AbortCall 0) family_world
     = Some (Thrown, logs [Emit 0 EvAbort, Handler 0 EvAbort 5, OpAbort 0 3]
                      (upd 0 (\<lambda>s. s\<lparr>collections := [4]\<rparr>) family_world))
   \<and> (\<exists>w' t. exec listener_failing_program 3 (AbortCall 0) family_world = Some (Thrown, w')
        \<and> heap w' = heap family_world \<and> trace w' = t
        \<and> t = [Emit 0 EvAbort, Handler 0 EvAbort 5])
   \<and> (\<exists>w' t. exec object_failing_program 3 (AbortCall 0) family_world = Some (Thrown, w')
        \<and> heap w' = (heap family_world)(0 := (heap family_world 0)\<lparr>collections := [4]\<rparr>)
        \<and> priv_aborted (heap w' 0) = priv_aborted (heap family_world 0)
        \<and> trace w' = t
        \<and> t = [Emit 0 EvAbort, Handler 0 EvAbort 5, OpAbort 0 3]
        \<and> Emit 0 EvAborted \<notin> set t)"
proof -
  let ?u = "collect 0 9 (logs [Emit 0 EvAbort, Handler 0 EvAbort 5] family_world)"
  let ?v = "logs [Emit 0 EvAbort, Handler 0 EvAbort 5, OpAbort 0 3]
              (upd 0 (\<lambda>s. s\<lparr>collections := [4]\<rparr>) family_world)"
  have g: "get_aborted (Suc 1) (heap family_world) 0 = Some False"
    by (simp add: family_world_0)
  have a: "emitter (heap family_world 0) EvAbort = [] @ 5 # []
      \<and> (\<forall>x \<in> set []. listener listener_failing_program x = [])
      \<and> listener listener_failing_program 5 = Throw # []"
    by (simp add: family_world_0 listener_failing_program_def)
  have b: "(\<forall>x \<in> set (emitter (heap family_world 0) EvAbort). listener object_failing_program x = [])
      \<and> collections (heap family_world 0) = [] @ 3 # [4]
      \<and> (\<forall>x \<in> set []. abort_of object_failing_program x = [])
      \<and> abort_of object_failing_program 3 = Throw # [] \<and> length ([] :: opref list) \<le> 1"
    by (simp add: family_world_0 object_failing_program_def)
  have a': "emitter (heap family_world 0) EvAbort = [] @ 5 # []
      \<and> (\<forall>x \<in> set []. listener late_failing_program x = [])
      \<and> run_seq (exec late_failing_program (Suc 1)) (listener late_failing_program 5)
           (logs (Emit 0 EvAbort # map (Handler 0 EvAbort) ([] @ [5])) family_world)
         = Some (Thrown, ?u)"
    by (simp add: family_world_0 late_failing_program_def)
  have b': "(\<forall>x \<in> set (emitter (heap family_world 0) EvAbort). listener object_failing_program x = [])
      \<and> collections (heap family_world 0) = [] @ 3 # [4]
      \<and> (\<forall>x \<in> set []. abort_of object_failing_program x = [])
      \<and> length ([] :: opref list) \<le> 1
      \<and> run_seq (exec object_failing_program (Suc 1)) (abort_of object_failing_program 3)
           (logs (Emit 0 EvAbort # map (Handler 0 EvAbort) (emitter (heap family_world 0) EvAbort)
                    @ map (OpAbort 0) ([] @ [3]))
              (upd 0 (\<lambda>s. s\<lparr>collections := [4]\<rparr>) family_world))
         = Some (Thrown, ?v)"
    by (simp add: family_world_0 object_failing_program_def)
  note T1 = abort_exception_propagates [OF g, where P = late_failing_program
      and pre = "[]" and l = 5 and post = "[]" and v = ?u]
  note T2 = abort_exception_propagates [OF g, where P = object_failing_program
      and cpre = "[]" and a = 3 and cpost = "[4]" and v = ?v]
  note G1 = T1 [THEN conjunct1, rule_format, OF a']
  note G2 = T2 [THEN conjunct2, THEN conjunct1, rule_format, OF b']
  note A = abort_exception_propagates [OF g, where P = listener_failing_program
      and pre = "[]" and l = 5 and post = "[]" and body = "[]",
      THEN conjunct2, THEN conjunct2, THEN conjunct1, rule_format, OF a]
  note B = abort_exception_propagates [OF g, where P = object_failing_program
      and cpre = "[]" and a = 3 and cpost = "[4]" and body = "[]",
      THEN conjunct2, THEN conjunct2, THEN conjunct2, rule_format, OF b]
  from G1 have "exec late_failing_program 3 (AbortCall 0) family_world = Some (Thrown, ?u)"
    by (simp add: numeral_3_eq_3 del: exec.simps)
  moreover
  from G2 have "exec object_failing_program 3 (AbortCall 0) family_world = Some (Thrown, ?v)"
    by (simp add: numeral_3_eq_3 del: exec.simps)
  moreover
  from A
  have "\<exists>w' t. exec listener_failing_program 3 (AbortCall 0) family_world = Some (Thrown, w')
        \<and> heap w' = heap family_world \<and> trace w' = t
        \<and> t = [Emit 0 EvAbort, Handler 0 EvAbort 5]"
    by (simp add: family_world_0 numeral_3_eq_3 del: exec.simps)
  moreover
  from B
  have "\<exists>w' t. exec object_failing_program 3 (AbortCall 0) family_world = Some (Thrown, w')
        \<and> heap w' = (heap family_world)(0 := (heap family_world 0)\<lparr>collections := [4]\<rparr>)
        \<and> priv_aborted (heap w' 0) = priv_aborted (heap family_world 0)
        \<and> trace w' = t
        \<and> t = [Emit 0 EvAbort, Handler 0 EvAbort 5, OpAbort 0 3]
        \<and> Emit 0 EvAborted \<notin> set t"
    by (simp add: family_world_0 numeral_3_eq_3 del: exec.simps)
  ultimately show ?thesis by blast
qed

text \<open>
  C7 as stated fails at this input, where the callback that throws is the \<open>aborted\<close>
  listener 6 of scope 0 and every other callback is quiet: the exception comes out of
  \<open>abort()\<close> on scope 0, but objects 3 and 4 and the child (with its object 7) have been
  aborted, the getter of scope 0 answers true and \<open>aborted\<close> has been emitted on it.
\<close>

theorem aborted_listener_throws_after_flag:
  "observe 2 0 (exec throwing_program 4 (AbortCall 0) family_world) =
     Some (Thrown, Some True, [],
       [Emit 0 EvAbort, Handler 0 EvAbort 5, OpAbort 0 3, OpAbort 0 4,
        Emit 1 EvAbort, OpAbort 1 7, Emit 1 EvAborted,
        Emit 0 EvAborted, Handler 0 EvAborted 6])"
  by code_simp

section \<open>Registering during a pass\<close>

text \<open>What a registering callback does to the state.\<close>

lemma registers_run:
  assumes "registers P r body"
  shows "\<exists>w'. run_seq (exec P (Suc n)) body w = Some (Returned, w')
      \<and> trace w' = trace w \<and> (\<forall>y. y \<noteq> r \<longrightarrow> heap w' y = heap w y)
      \<and> children (heap w' r) = children (heap w r)
      \<and> emitter (heap w' r) = emitter (heap w r)
      \<and> (\<exists>new. collections (heap w' r) = collections (heap w r) @ new
            \<and> (\<forall>x \<in> set new. abort_of P x = [])
            \<and> length new \<le> length body
            \<and> registered_by r body \<subseteq> set (collections (heap w r)) \<union> set new)"
  using assms
proof (induction body arbitrary: w)
  case Nil
  have "collections (heap w r) = collections (heap w r) @ []" by simp
  then show ?case by (auto simp: registered_by_def)
next
  case (Cons c body)
  then obtain x where c: "c = Collect r x" and leaf: "abort_of P x = []"
    and rest: "registers P r body"
    by (auto simp: registers_def)
  let ?w1 = "collect r x w"
  from Cons.IH [OF rest, of ?w1] obtain w' new where
    run: "run_seq (exec P (Suc n)) body ?w1 = Some (Returned, w')"
    and tr: "trace w' = trace ?w1"
    and fr: "\<forall>y. y \<noteq> r \<longrightarrow> heap w' y = heap ?w1 y"
    and ch: "children (heap w' r) = children (heap ?w1 r)"
    and em: "emitter (heap w' r) = emitter (heap ?w1 r)"
    and col: "collections (heap w' r) = collections (heap ?w1 r) @ new"
    and lf: "\<forall>x \<in> set new. abort_of P x = []"
    and len: "length new \<le> length body"
    and sub: "registered_by r body \<subseteq> set (collections (heap ?w1 r)) \<union> set new"
    by blast
  let ?new = "(if x \<in> set (collections (heap w r)) then [] else [x]) @ new"
  from c run have "run_seq (exec P (Suc n)) (c # body) w = Some (Returned, w')" by simp
  moreover from tr have "trace w' = trace w" by (simp add: trace_collect)
  moreover from fr have "\<forall>y. y \<noteq> r \<longrightarrow> heap w' y = heap w y"
    by (simp add: heap_collect_other)
  moreover from ch have "children (heap w' r) = children (heap w r)"
    by (simp add: children_collect)
  moreover from em have "emitter (heap w' r) = emitter (heap w r)"
    by (simp add: emitter_collect)
  moreover from col have "collections (heap w' r) = collections (heap w r) @ ?new"
    by (simp add: collections_collect)
  moreover from lf leaf have "\<forall>x \<in> set ?new. abort_of P x = []" by simp
  moreover from len have "length ?new \<le> length (c # body)" by simp
  moreover from sub c have
    "registered_by r (c # body) \<subseteq> set (collections (heap w r)) \<union> set ?new"
    by (auto simp: registered_by_def collections_collect split: if_splits)
  ultimately show ?case by blast
qed

lemma registers_Nil: "abort_of P x = [] \<Longrightarrow> registers P r (abort_of P x)"
  by (simp add: registers_def)

lemma cost_append: "cost P (q @ q') = cost P q + cost P q'"
  by (simp add: cost_def)

lemma cost_leaves: "\<forall>x \<in> set new. abort_of P x = [] \<Longrightarrow> cost P new = length new"
  by (induction new) (simp_all add: cost_def)

text \<open>
  The drain loop over a queue of registering objects: it ends with \<open>collections\<close>
  empty, having called the \<open>abort()\<close> of every object of the queue and of every object
  that one of these registered.
\<close>

lemma drain_registering:
  "\<forall>a \<in> set (collections (heap w r)). registers P r (abort_of P a) \<Longrightarrow>
   cost P (collections (heap w r)) < n \<Longrightarrow>
   \<exists>w' inv. drain (\<lambda>a. run_seq (exec P (Suc k)) (abort_of P a)) n r w = Some (Returned, w')
      \<and> collections (heap w' r) = [] \<and> trace w' = trace w @ map (OpAbort r) inv
      \<and> set (collections (heap w r)) \<subseteq> set inv
      \<and> (\<forall>a \<in> set inv. registered_by r (abort_of P a) \<subseteq> set inv)
      \<and> (\<forall>y. y \<noteq> r \<longrightarrow> heap w' y = heap w y)
      \<and> children (heap w' r) = children (heap w r)
      \<and> emitter (heap w' r) = emitter (heap w r)"
proof (induction n arbitrary: w)
  case 0
  then show ?case by simp
next
  case (Suc n)
  show ?case
  proof (cases "collections (heap w r)")
    case Nil
    then have "drain (\<lambda>a. run_seq (exec P (Suc k)) (abort_of P a)) (Suc n) r w = Some (Returned, w)
      \<and> collections (heap w r) = [] \<and> trace w = trace w @ map (OpAbort r) []
      \<and> set (collections (heap w r)) \<subseteq> set []" by simp
    then show ?thesis by fastforce
  next
    case (Cons a rest)
    let ?w0 = "log (OpAbort r a) (upd r (\<lambda>s. s\<lparr>collections := rest\<rparr>) w)"
    from Suc.prems(1) Cons have ra: "registers P r (abort_of P a)" by simp
    from registers_run [OF ra, of k ?w0] obtain w1 new where
      run: "run_seq (exec P (Suc k)) (abort_of P a) ?w0 = Some (Returned, w1)"
      and tr: "trace w1 = trace ?w0"
      and fr: "\<forall>y. y \<noteq> r \<longrightarrow> heap w1 y = heap ?w0 y"
      and ch: "children (heap w1 r) = children (heap ?w0 r)"
      and em: "emitter (heap w1 r) = emitter (heap ?w0 r)"
      and col: "collections (heap w1 r) = collections (heap ?w0 r) @ new"
      and lf: "\<forall>x \<in> set new. abort_of P x = []"
      and len: "length new \<le> length (abort_of P a)"
      and sub: "registered_by r (abort_of P a) \<subseteq> set (collections (heap ?w0 r)) \<union> set new"
      by blast
    from col have col1: "collections (heap w1 r) = rest @ new" by simp
    have inv1: "\<forall>b \<in> set (collections (heap w1 r)). registers P r (abort_of P b)"
      using Suc.prems(1) Cons lf by (auto simp: col1 intro: registers_Nil)
    have "cost P (collections (heap w1 r)) = cost P rest + length new"
      by (simp add: col1 cost_append cost_leaves [OF lf])
    moreover from Suc.prems(2) Cons have "cost P rest + Suc (length (abort_of P a)) < Suc n"
      by (simp add: cost_def)
    ultimately have "cost P (collections (heap w1 r)) < n" using len by simp
    from Suc.IH [OF inv1 this] obtain w' inv where
      d: "drain (\<lambda>a. run_seq (exec P (Suc k)) (abort_of P a)) n r w1 = Some (Returned, w')"
      and e: "collections (heap w' r) = []"
      and tr': "trace w' = trace w1 @ map (OpAbort r) inv"
      and all: "set (collections (heap w1 r)) \<subseteq> set inv"
      and clo: "\<forall>a \<in> set inv. registered_by r (abort_of P a) \<subseteq> set inv"
      and fr': "\<forall>y. y \<noteq> r \<longrightarrow> heap w' y = heap w1 y"
      and ch': "children (heap w' r) = children (heap w1 r)"
      and em': "emitter (heap w' r) = emitter (heap w1 r)"
      by blast
    from Cons run d have
      "drain (\<lambda>a. run_seq (exec P (Suc k)) (abort_of P a)) (Suc n) r w = Some (Returned, w')"
      by simp
    moreover from tr tr' have "trace w' = trace w @ map (OpAbort r) (a # inv)" by simp
    moreover from all Cons col1 have "set (collections (heap w r)) \<subseteq> set (a # inv)" by auto
    moreover from sub all col1 clo have
      "\<forall>b \<in> set (a # inv). registered_by r (abort_of P b) \<subseteq> set (a # inv)" by auto
    moreover from fr fr' have "\<forall>y. y \<noteq> r \<longrightarrow> heap w' y = heap w y" by simp
    moreover from ch ch' have "children (heap w' r) = children (heap w r)" by simp
    moreover from em em' have "emitter (heap w' r) = emitter (heap w r)" by simp
    ultimately show ?thesis using e by blast
  qed
qed

lemma handlers_registering:
  assumes "\<forall>l \<in> set ls. registers P r (listener P l)"
  shows "\<exists>w'. run_seq (\<lambda>l v. run_seq (exec P (Suc n)) (listener P l) (log (H l) v)) ls w
          = Some (Returned, w')
      \<and> trace w' = trace w @ map H ls \<and> (\<forall>y. y \<noteq> r \<longrightarrow> heap w' y = heap w y)
      \<and> children (heap w' r) = children (heap w r)
      \<and> emitter (heap w' r) = emitter (heap w r)
      \<and> (\<exists>new. collections (heap w' r) = collections (heap w r) @ new
            \<and> (\<forall>x \<in> set new. abort_of P x = [])
            \<and> (\<forall>l \<in> set ls. registered_by r (listener P l)
                   \<subseteq> set (collections (heap w r)) \<union> set new))"
  using assms
proof (induction ls arbitrary: w)
  case Nil
  have "collections (heap w r) = collections (heap w r) @ []" by simp
  then show ?case by auto
next
  case (Cons l ls)
  let ?w0 = "log (H l) w"
  from Cons.prems have rl: "registers P r (listener P l)"
    and rest: "\<forall>l \<in> set ls. registers P r (listener P l)" by simp_all
  from registers_run [OF rl, of n ?w0] obtain w1 new1 where
    run: "run_seq (exec P (Suc n)) (listener P l) ?w0 = Some (Returned, w1)"
    and tr: "trace w1 = trace ?w0"
    and fr: "\<forall>y. y \<noteq> r \<longrightarrow> heap w1 y = heap ?w0 y"
    and ch: "children (heap w1 r) = children (heap ?w0 r)"
    and em: "emitter (heap w1 r) = emitter (heap ?w0 r)"
    and col: "collections (heap w1 r) = collections (heap ?w0 r) @ new1"
    and lf: "\<forall>x \<in> set new1. abort_of P x = []"
    and sub: "registered_by r (listener P l) \<subseteq> set (collections (heap ?w0 r)) \<union> set new1"
    by blast
  from Cons.IH [OF rest, of w1] obtain w' new2 where
    run': "run_seq (\<lambda>l v. run_seq (exec P (Suc n)) (listener P l) (log (H l) v)) ls w1
          = Some (Returned, w')"
    and tr': "trace w' = trace w1 @ map H ls"
    and fr': "\<forall>y. y \<noteq> r \<longrightarrow> heap w' y = heap w1 y"
    and ch': "children (heap w' r) = children (heap w1 r)"
    and em': "emitter (heap w' r) = emitter (heap w1 r)"
    and col': "collections (heap w' r) = collections (heap w1 r) @ new2"
    and lf': "\<forall>x \<in> set new2. abort_of P x = []"
    and sub': "\<forall>l \<in> set ls. registered_by r (listener P l)
                   \<subseteq> set (collections (heap w1 r)) \<union> set new2"
    by blast
  from run run' have
    "run_seq (\<lambda>l v. run_seq (exec P (Suc n)) (listener P l) (log (H l) v)) (l # ls) w
          = Some (Returned, w')" by simp
  moreover from tr tr' have "trace w' = trace w @ map H (l # ls)" by simp
  moreover from fr fr' have "\<forall>y. y \<noteq> r \<longrightarrow> heap w' y = heap w y" by simp
  moreover from ch ch' have "children (heap w' r) = children (heap w r)" by simp
  moreover from em em' have "emitter (heap w' r) = emitter (heap w r)" by simp
  moreover from col col' have "collections (heap w' r) = collections (heap w r) @ (new1 @ new2)"
    by simp
  moreover from lf lf' have "\<forall>x \<in> set (new1 @ new2). abort_of P x = []" by auto
  moreover from sub sub' col have "\<forall>k \<in> set (l # ls). registered_by r (listener P k)
                   \<subseteq> set (collections (heap w r)) \<union> set (new1 @ new2)" by auto
  ultimately show ?case by blast
qed

text \<open>
  C8, as amended. On a scope without children that does not report canceled, where
  the \<open>abort\<close> listeners and the collected objects do nothing but register quiet objects on
  the scope (and the \<open>aborted\<close> listeners are quiet), \<open>abort()\<close> returns, and before it
  emits \<open>aborted\<close> the drain loop has called the \<open>abort()\<close> of every object that was
  collected at the start, of every object an \<open>abort\<close> listener registered, and of every
  object registered by the \<open>abort()\<close> of an object it called; \<open>collections\<close> ends empty.
\<close>

theorem reentrant_registration_drained:
  assumes "get_aborted k (heap w) r = Some False"
    and "children (heap w r) = []"
    and "\<forall>l \<in> set (emitter (heap w r) EvAbort). registers P r (listener P l)"
    and "\<forall>a \<in> set (collections (heap w r)). registers P r (abort_of P a)"
    and "\<forall>l \<in> set (emitter (heap w r) EvAborted). listener P l = []"
  shows "\<exists>n w' inv. exec P n (AbortCall r) w = Some (Returned, w')
     \<and> trace w' = trace w
          @ Emit r EvAbort # map (Handler r EvAbort) (emitter (heap w r) EvAbort)
          @ map (OpAbort r) inv
          @ Emit r EvAborted # map (Handler r EvAborted) (emitter (heap w r) EvAborted)
     \<and> collections (heap w' r) = []
     \<and> set (collections (heap w r)) \<subseteq> set inv
     \<and> (\<forall>l \<in> set (emitter (heap w r) EvAbort). registered_by r (listener P l) \<subseteq> set inv)
     \<and> (\<forall>a \<in> set inv. registered_by r (abort_of P a) \<subseteq> set inv)"
proof -
  let ?ls = "emitter (heap w r) EvAbort"
  let ?ls2 = "emitter (heap w r) EvAborted"
  let ?w0 = "log (Emit r EvAbort) w"
  have "\<exists>w1 new. emit (\<lambda>l. run_seq (exec P (Suc 0)) (listener P l)) r EvAbort w
          = Some (Returned, w1)
      \<and> trace w1 = trace w @ Emit r EvAbort # map (Handler r EvAbort) ?ls
      \<and> (\<forall>y. y \<noteq> r \<longrightarrow> heap w1 y = heap w y)
      \<and> children (heap w1 r) = children (heap w r)
      \<and> emitter (heap w1 r) = emitter (heap w r)
      \<and> collections (heap w1 r) = collections (heap w r) @ new
      \<and> (\<forall>x \<in> set new. abort_of P x = [])
      \<and> (\<forall>l \<in> set ?ls. registered_by r (listener P l)
                   \<subseteq> set (collections (heap w r)) \<union> set new)"
    using handlers_registering [OF assms(3), of 0 "Handler r EvAbort" ?w0]
    by (simp add: emit_def)
  then obtain w1 new1 where
    e0: "emit (\<lambda>l. run_seq (exec P (Suc 0)) (listener P l)) r EvAbort w = Some (Returned, w1)"
    and tr1: "trace w1 = trace w @ Emit r EvAbort # map (Handler r EvAbort) ?ls"
    and ch1: "children (heap w1 r) = children (heap w r)"
    and em1: "emitter (heap w1 r) = emitter (heap w r)"
    and col1: "collections (heap w1 r) = collections (heap w r) @ new1"
    and lf1: "\<forall>x \<in> set new1. abort_of P x = []"
    and sub1: "\<forall>l \<in> set ?ls. registered_by r (listener P l)
                   \<subseteq> set (collections (heap w r)) \<union> set new1"
    by blast
  let ?M = "max k (cost P (collections (heap w1 r)))"
  have lift: "exec P (Suc 0) c v = Some res \<Longrightarrow> exec P (Suc ?M) c v = Some res" for c v res
    by (erule exec_mono [rotated]) simp
  have e1: "emit (\<lambda>l. run_seq (exec P (Suc ?M)) (listener P l)) r EvAbort w = Some (Returned, w1)"
    using e0 by (rule emit_mono) (erule run_seq_mono, erule lift)
  have inv1: "\<forall>a \<in> set (collections (heap w1 r)). registers P r (abort_of P a)"
    using assms(4) lf1 by (auto simp: col1 intro: registers_Nil)
  have "cost P (collections (heap w1 r)) < Suc ?M" by simp
  from drain_registering [OF inv1 this, of ?M] obtain w2 inv where
    d: "drain (\<lambda>a. run_seq (exec P (Suc ?M)) (abort_of P a)) (Suc ?M) r w1 = Some (Returned, w2)"
    and col2: "collections (heap w2 r) = []"
    and tr2: "trace w2 = trace w1 @ map (OpAbort r) inv"
    and all2: "set (collections (heap w1 r)) \<subseteq> set inv"
    and clo2: "\<forall>a \<in> set inv. registered_by r (abort_of P a) \<subseteq> set inv"
    and ch2: "children (heap w2 r) = children (heap w1 r)"
    and em2: "emitter (heap w2 r) = emitter (heap w1 r)"
    by blast
  from ch1 ch2 assms(2) have "children (heap w2 r) = []" by simp
  then have loop: "forEach_from (\<lambda>i. exec P (Suc ?M) (AbortCall i)) r 0
      (length (children (heap w2 r))) w2 = Some (Returned, w2)"
    by simp
  let ?w4 = "set_aborted r True w2"
  let ?w5 = "logs (Emit r EvAborted # map (Handler r EvAborted) (emitter (heap ?w4 r) EvAborted)) ?w4"
  from em1 em2 have em4: "emitter (heap ?w4 r) = emitter (heap w r)" by simp
  with assms(5) have "\<forall>l \<in> set (emitter (heap ?w4 r) EvAborted). listener P l = []" by simp
  then have e2: "emit (\<lambda>l. run_seq (exec P (Suc ?M)) (listener P l)) r EvAborted ?w4
      = Some (Returned, ?w5)"
    by (rule emit_quiet_local)
  have g: "get_aborted (Suc ?M) (heap w) r = Some False"
    using assms(1) by (rule get_aborted_mono [rotated]) simp
  have "abort P (exec P (Suc ?M)) (Suc ?M) r w = Some (Returned, ?w5)"
    by (simp only: abort_not_canceled [OF g] e1 d loop e2 then_do_Returned)
  then have ex: "exec P (Suc (Suc ?M)) (AbortCall r) w = Some (Returned, ?w5)" by simp
  have tr5: "trace ?w5 = trace w
          @ Emit r EvAbort # map (Handler r EvAbort) ?ls
          @ map (OpAbort r) inv
          @ Emit r EvAborted # map (Handler r EvAborted) ?ls2"
    using tr1 tr2 em1 em2 by simp
  have col5: "collections (heap ?w5 r) = []" using col2 by simp
  from all2 col1 have a: "set (collections (heap w r)) \<subseteq> set inv" by auto
  from sub1 all2 col1 have b: "\<forall>l \<in> set ?ls. registered_by r (listener P l) \<subseteq> set inv"
    by auto
  from ex tr5 col5 a b clo2 show ?thesis by blast
qed

theorem reentrant_registration_drained_witness:
  "\<exists>n w' inv. exec registering_program n (AbortCall 0) registering_world = Some (Returned, w')
     \<and> trace w' = [Emit 0 EvAbort, Handler 0 EvAbort 5] @ map (OpAbort 0) inv
                   @ [Emit 0 EvAborted, Handler 0 EvAborted 6]
     \<and> collections (heap w' 0) = []
     \<and> 3 \<in> set inv \<and> 8 \<in> set inv \<and> 10 \<in> set inv"
proof -
  have "get_aborted 1 (heap registering_world) 0 = Some False"
    "children (heap registering_world 0) = []"
    "\<forall>l \<in> set (emitter (heap registering_world 0) EvAbort).
        registers registering_program 0 (listener registering_program l)"
    "\<forall>a \<in> set (collections (heap registering_world 0)).
        registers registering_program 0 (abort_of registering_program a)"
    "\<forall>l \<in> set (emitter (heap registering_world 0) EvAborted). listener registering_program l = []"
    by (simp_all add: registering_world_0 registers_def registering_program_def)
  from reentrant_registration_drained [OF this] obtain n w' inv where
    "exec registering_program n (AbortCall 0) registering_world = Some (Returned, w')"
    "trace w' = trace registering_world
          @ Emit 0 EvAbort # map (Handler 0 EvAbort) (emitter (heap registering_world 0) EvAbort)
          @ map (OpAbort 0) inv
          @ Emit 0 EvAborted # map (Handler 0 EvAborted) (emitter (heap registering_world 0) EvAborted)"
    "collections (heap w' 0) = []"
    and a: "set (collections (heap registering_world 0)) \<subseteq> set inv"
    and b: "\<forall>l \<in> set (emitter (heap registering_world 0) EvAbort).
        registered_by 0 (listener registering_program l) \<subseteq> set inv"
    and c: "\<forall>a \<in> set inv. registered_by 0 (abort_of registering_program a) \<subseteq> set inv"
    by blast
  moreover from a have three: "3 \<in> set inv" by (simp add: registering_world_0)
  moreover from b have "8 \<in> set inv"
    by (simp add: registering_world_0 registered_by_def registering_program_def)
  moreover from c three have "registered_by 0 (abort_of registering_program 3) \<subseteq> set inv"
    by blast
  then have "10 \<in> set inv"
    by (simp add: registered_by_def registering_program_def)
  ultimately show ?thesis by (simp add: registering_world_0) blast
qed

text \<open>
  C8 as stated fails at this input. Object 7 of the child registers object 9 on
  scope 0 during the pass of scope 0, when the drain loop of scope 0 has ended: the
  objects registered by the \<open>abort\<close> listener and by object 3 are aborted (8 and 10),
  object 9 is not; here it is left in \<open>collections\<close> of scope 0, whose getter answers
  true.
\<close>

theorem registration_after_drain_skipped:
  "observe 2 0 (exec registering_program 6 (AbortCall 0) family_world) =
     Some (Returned, Some True, [9],
       [Emit 0 EvAbort, Handler 0 EvAbort 5, OpAbort 0 3, OpAbort 0 4,
        OpAbort 0 8, OpAbort 0 10, Emit 1 EvAbort, OpAbort 1 7,
        Emit 1 EvAborted, Emit 0 EvAborted, Handler 0 EvAborted 6])"
  by code_simp

section \<open>No object is twice in \<open>collections\<close>\<close>

lemma tidy_empty_world: "tidy empty_world"
  by (simp add: tidy_def empty_world_def new_MagicAborter_def)

lemma tidy_log [simp]: "tidy (log e w) = tidy w"
  by (simp add: tidy_def)

lemma tidy_upd:
  "tidy w \<Longrightarrow> distinct (collections (f (heap w r))) \<Longrightarrow> tidy (upd r f w)"
  by (simp add: tidy_def)

lemma tidy_collect: "tidy w \<Longrightarrow> tidy (collect r a w)"
  by (simp add: tidy_def collect_def includes_elem_iff)

lemma then_do_cases:
  assumes "then_do m k = Some (c, w')"
  obtains (thrown) "m = Some (Thrown, w')" "c = Thrown"
    | (returned) v where "m = Some (Returned, v)" "k v = Some (c, w')"
  using assms by (auto simp: then_do_Some)

lemma then_do_inv:
  assumes "then_do m k = Some (c, w')"
    and "\<And>c v. m = Some (c, v) \<Longrightarrow> I v"
    and "\<And>v. m = Some (Returned, v) \<Longrightarrow> k v = Some (c, w') \<Longrightarrow> I w'"
  shows "I w'"
  using assms by (auto simp: then_do_Some)

lemma run_seq_inv:
  assumes f: "\<And>x v c v'. I v \<Longrightarrow> f x v = Some (c, v') \<Longrightarrow> I v'"
  shows "I w \<Longrightarrow> run_seq f xs w = Some (c, w') \<Longrightarrow> I w'"
proof (induction xs arbitrary: w)
  case Nil
  then show ?case by simp
next
  case (Cons x xs)
  from Cons.prems(2) have "then_do (f x w) (run_seq f xs) = Some (c, w')" by simp
  then show ?case
    by (rule then_do_inv) (auto intro: f [OF Cons.prems(1)] Cons.IH)
qed

lemma emit_tidy:
  assumes f: "\<And>l v c v'. tidy v \<Longrightarrow> f l v = Some (c, v') \<Longrightarrow> tidy v'"
    and "tidy w" and "emit f r ev w = Some (c, w')"
  shows "tidy w'"
proof -
  have step: "tidy v'" if "tidy v" and "f l (log (Handler r ev l) v) = Some (c, v')" for l v c v'
    using f [of "log (Handler r ev l) v" l c v'] that by simp
  from assms(2) have "tidy (log (Emit r ev) w)" by simp
  moreover from assms(3) have
    "run_seq (\<lambda>l w'. f l (log (Handler r ev l) w')) (emitter (heap w r) ev) (log (Emit r ev) w)
       = Some (c, w')" by (simp add: emit_def)
  ultimately show ?thesis
    by (rule run_seq_inv [where I = tidy, rotated]) (rule step)
qed

lemma drain_tidy:
  assumes f: "\<And>a v c v'. tidy v \<Longrightarrow> f a v = Some (c, v') \<Longrightarrow> tidy v'"
  shows "tidy w \<Longrightarrow> drain f n r w = Some (c, w') \<Longrightarrow> tidy w'"
proof (induction n arbitrary: w)
  case 0
  then show ?case by simp
next
  case (Suc n)
  show ?case
  proof (cases "collections (heap w r)")
    case Nil
    with Suc.prems show ?thesis by simp
  next
    case (Cons a rest)
    let ?w0 = "log (OpAbort r a) (upd r (\<lambda>s. s\<lparr>collections := rest\<rparr>) w)"
    from Suc.prems(1) Cons have "distinct rest" by (auto simp: tidy_def dest: spec [of _ r])
    with Suc.prems(1) have t0: "tidy ?w0" by (simp add: tidy_upd)
    from Suc.prems(2) Cons have "then_do (f a ?w0) (drain f n r) = Some (c, w')" by simp
    then show ?thesis
      by (rule then_do_inv) (auto intro: f [OF t0] Suc.IH)
  qed
qed

lemma forEach_tidy:
  assumes f: "\<And>i v c v'. tidy v \<Longrightarrow> f i v = Some (c, v') \<Longrightarrow> tidy v'"
  shows "tidy w \<Longrightarrow> forEach_from f r m k w = Some (c, w') \<Longrightarrow> tidy w'"
proof (induction k arbitrary: m w)
  case 0
  then show ?case by simp
next
  case (Suc k)
  show ?case
  proof (cases "m < length (children (heap w r))")
    case True
    with Suc.prems(2) have
      "then_do (f (children (heap w r) ! m) w) (forEach_from f r (Suc m) k) = Some (c, w')"
      by (simp add: Let_def)
    then show ?thesis
      by (rule then_do_inv) (auto intro: f [OF Suc.prems(1)] Suc.IH)
  next
    case False
    with Suc.prems Suc.IH show ?thesis by (simp add: Let_def)
  qed
qed

text \<open>
  Whatever the callbacks do, no call puts an object twice into a \<open>collections\<close> array:
  every state reached from freshly constructed scopes is \<open>tidy\<close>.
\<close>

lemma exec_tidy: "tidy w \<Longrightarrow> exec P n c w = Some (k, w') \<Longrightarrow> tidy w'"
proof (induction n arbitrary: c w k w')
  case 0
  then show ?case by simp
next
  case (Suc n)
  have body: "tidy v \<Longrightarrow> run_seq (exec P n) b v = Some (c', v') \<Longrightarrow> tidy v'" for b v c' v'
    by (erule run_seq_inv [where I = tidy, rotated]) (auto dest: Suc.IH)
  show ?case
  proof (cases c)
    case (AbortCall r)
    with Suc.prems(2) have ab: "abort P (exec P n) n r w = Some (k, w')" by simp
    then obtain b where b: "get_aborted n (heap w) r = Some b"
      by (auto simp: abort_def split: option.splits)
    show ?thesis
    proof (cases b)
      case True
      with ab b Suc.prems(1) show ?thesis by (simp add: abort_canceled)
    next
      case False
      with b have g: "get_aborted n (heap w) r = Some False" by simp
      let ?w4 = "\<lambda>w3. set_aborted r True w3"
      from ab have run: "then_do (emit (\<lambda>l. run_seq (exec P n) (listener P l)) r EvAbort w) (\<lambda>w1.
          then_do (drain (\<lambda>a. run_seq (exec P n) (abort_of P a)) n r w1) (\<lambda>w2.
          then_do (forEach_from (\<lambda>i. exec P n (AbortCall i)) r 0
                     (length (children (heap w2 r))) w2) (\<lambda>w3.
          emit (\<lambda>l. run_seq (exec P n) (listener P l)) r EvAborted (?w4 w3))))
          = Some (k, w')"
        by (simp only: abort_not_canceled [OF g])
      have e: "tidy v'"
        if "tidy v" and "emit (\<lambda>l. run_seq (exec P n) (listener P l)) r ev v = Some (c', v')"
        for v ev c' v'
        using body that by (rule emit_tidy)
      have d: "tidy v'"
        if "tidy v" and "drain (\<lambda>a. run_seq (exec P n) (abort_of P a)) n r v = Some (c', v')"
        for v c' v'
        using body that by (rule drain_tidy)
      have l: "tidy v'"
        if "tidy v" and "forEach_from (\<lambda>i. exec P n (AbortCall i)) r 0 j v = Some (c', v')"
        for v j c' v'
        using Suc.IH that by (rule forEach_tidy)
      have s: "tidy (?w4 v)" if "tidy v" for v
        using that by (simp add: tidy_def)
      from run show ?thesis
      proof (cases rule: then_do_cases)
        case thrown
        with Suc.prems(1) show ?thesis by (blast intro: e)
      next
        case (returned w1)
        from Suc.prems(1) returned(1) have t1: "tidy w1" by (rule e)
        from returned(2) show ?thesis
        proof (cases rule: then_do_cases)
          case thrown
          with t1 show ?thesis by (blast intro: d)
        next
          case (returned w2)
          from t1 returned(1) have t2: "tidy w2" by (rule d)
          from returned(2) show ?thesis
          proof (cases rule: then_do_cases)
            case thrown
            with t2 show ?thesis by (blast intro: l)
          next
            case (returned w3)
            from t2 returned(1) have "tidy w3" by (rule l)
            then have "tidy (?w4 w3)" by (rule s)
            then show ?thesis using returned(2) by (rule e)
          qed
        qed
      qed
    qed
  next
    case (Collect r a)
    with Suc.prems show ?thesis by (auto intro: tidy_collect)
  qed (use Suc.prems in \<open>auto simp: tidy_def set_aborted_def on_def off_def
        addChildAborter_def removeChildAborter_def\<close>)
qed

section \<open>Registering the same object twice\<close>

text \<open>
  C9. On a scope whose \<open>collections\<close> holds no object twice (as in every state that
  calls reach from fresh scopes), collecting the same object twice is collecting it
  once: \<open>collections\<close> holds it once, and with quiet callbacks (on a well-founded
  heap) the next pass calls its \<open>abort()\<close> exactly once.
\<close>

theorem collect_twice_aborts_once:
  assumes "quiet P" and "ranked (heap w) rk" and "distinct (collections (heap w r))"
  shows "collect r a (collect r a w) = collect r a w
     \<and> count_list (collections (heap (collect r a (collect r a w)) r)) a = 1
     \<and> (\<exists>n w' t. exec P n (AbortCall r) (collect r a (collect r a w)) = Some (Returned, w')
           \<and> trace w' = trace w @ t \<and> count_list t (OpAbort r a) = 1
           \<and> collections (heap w' r) = [])"
proof -
  let ?w1 = "collect r a w"
  have one: "count_list (collections (heap ?w1 r)) a = 1"
    using distinct_collect [OF assms(3)]
    by (rule count_list_distinct) (simp add: collections_collect)
  have "ranked (heap ?w1) rk"
    using assms(2) by (simp add: ranked_def children_collect)
  moreover have "\<not> canceled (heap ?w1) r"
    using priv_aborted_collect [of r a w] by (subst canceled_iff) simp
  ultimately obtain n w' tc where
    ex: "exec P n (AbortCall r) ?w1 = Some (Returned, w')"
    and col: "collections (heap w' r) = []"
    and tr: "trace w' = trace ?w1 @ pass_trace ?w1 r tc"
    and low: "\<forall>e \<in> set tc. rk (obs_ref e) < rk r"
    using abort_quiet [OF assms(1), of ?w1 rk r] by blast
  from tr have "trace w' = trace w @ pass_trace ?w1 r tc" by (simp add: trace_collect)
  moreover have "count_list (pass_trace ?w1 r tc) (OpAbort r a) = 1"
    using count_pass_trace_OpAbort [OF low, of ?w1 a] one by simp
  ultimately show ?thesis using ex col one by (simp only: collect_collect) blast
qed

theorem collect_twice_aborts_once_witness:
  "collect 0 8 (collect 0 8 family_world) = collect 0 8 family_world
     \<and> count_list (collections (heap (collect 0 8 (collect 0 8 family_world)) 0)) 8 = 1
     \<and> (\<exists>n w' t. exec quiet_program n (AbortCall 0) (collect 0 8 (collect 0 8 family_world))
             = Some (Returned, w')
           \<and> trace w' = trace family_world @ t \<and> count_list t (OpAbort 0 8) = 1
           \<and> collections (heap w' 0) = [])"
proof -
  have "distinct (collections (heap family_world 0))"
    by (simp add: family_world_def)
  from collect_twice_aborts_once [OF quiet_quiet_program ranked_family_world this]
  show ?thesis .
qed

section \<open>Registering a duplicate on a flagged scope\<close>

text \<open>
  C10. On a scope whose flag is set, \<open>collect\<close> of an object that is already in
  \<open>collections\<close> leaves \<open>collections\<close> as it was and still resets the flag, so the
  getter \<open>aborted\<close> answers false.
\<close>

theorem collect_duplicate_resets_flag:
  assumes "priv_aborted (heap w this)" and "a \<in> set (collections (heap w this))"
  shows "collections (heap (collect this a w) this) = collections (heap w this)
       \<and> \<not> priv_aborted (heap (collect this a w) this)
       \<and> get_aborted (Suc n) (heap (collect this a w)) this = Some False"
  using assms by (simp add: collections_collect priv_aborted_collect)

theorem collect_duplicate_resets_flag_witness:
  "priv_aborted (heap flagged_world 0) \<and> 1 \<in> set (collections (heap flagged_world 0))
   \<and> get_aborted 1 (heap flagged_world) 0 = Some True
   \<and> collections (heap (collect 0 1 flagged_world) 0) = [1]
   \<and> \<not> priv_aborted (heap (collect 0 1 flagged_world) 0)
   \<and> get_aborted 1 (heap (collect 0 1 flagged_world)) 0 = Some False"
  using collect_duplicate_resets_flag [of flagged_world 0 1 0]
  by (simp add: flagged_world_def)

end
